theory Spec2Isabelle
  imports Complex_Main
begin

section \<open>Python values handled by the schema layer\<close>

text \<open>
  The module \<^verbatim>\<open>screfinery/schema.py\<close> declares pydantic (version 1) models. A
  payload is a Python dict from field names to values; a projection source is an
  object read by attribute access. Values are modelled by one datatype. A \<open>char\<close>
  stands for one character of a Python \<^verbatim>\<open>str\<close>, so \<open>length\<close> is Python's \<^verbatim>\<open>len\<close>.
  A finite float is given by its exact rational value; the three special floats
  are separate constructors. A datetime is an opaque timestamp.
\<close>

datatype pyfloat = Fin rat | PosInf | NegInf | NaN

datatype pyval =
    VNone
  | VBool bool
  | VInt int
  | VFloat pyfloat
  | VStr string
  | VDatetime int
  | VList "pyval list"
  | VDict "(string \<times> pyval) list"
  | VObj "(string \<times> pyval) list"
  | VModel string "(string \<times> pyval) list" "string list"

text \<open>
  \<open>VDict\<close> is a dict (looked up with \<open>map_of\<close>), \<open>VObj\<close> an arbitrary object
  given by its attributes, and \<open>VModel cls values fields_set\<close> an instance of the
  pydantic model \<open>cls\<close>: its \<^verbatim>\<open>__dict__\<close> and its \<^verbatim>\<open>__fields_set__\<close>.
\<close>

type_synonym pydict = "(string \<times> pyval) list"

subsection \<open>Errors\<close>

datatype locelem = LName string | LIdx nat

type_synonym loc = "locelem list"

text \<open>The error classes of \<^verbatim>\<open>pydantic.errors\<close> that the declared field types can raise,
  and \<open>ValueError\<close> for what a class validator raises itself.\<close>

datatype err =
    MissingError
  | NoneIsNotAllowedError
  | StrError
  | AnyStrMaxLengthError nat
  | StrRegexError
  | IntegerError
  | FloatError
  | NumberNotGtError rat
  | NumberNotLeError rat
  | BoolError
  | DateTimeError
  | ListError
  | DictError
  | ValueError string

type_synonym errs = "(loc \<times> err) list"

text \<open>Exceptions that leave the schema layer: the \<^verbatim>\<open>ValidationError\<close> of a model
  (with the model's name and every collected field error) and the
  \<^verbatim>\<open>AttributeError\<close> of a failed attribute read.\<close>

datatype exc = ValidationError string errs | AttributeError string

text \<open>Outcome of validating one value: the validated value, field errors to be
  collected, or an exception that no validator catches.\<close>

datatype 'a res = Ok 'a | Errs errs | Raise exc

subsection \<open>Coercion of values foreign to a field type\<close>

text \<open>
  pydantic's type validators return a value of the field's own Python type as it
  is and try to convert any other value (\<^verbatim>\<open>str(v)\<close>, \<^verbatim>\<open>int(v)\<close>, \<^verbatim>\<open>float(v)\<close>, the
  truth-value table, datetime parsing, \<^verbatim>\<open>dict(v)\<close>). Those conversions belong to Python
  and pydantic, not to this repository; they are a parameter of the model.
  \<open>None\<close> means the conversion is refused.
\<close>

record coercions =
  to_str :: "pyval \<Rightarrow> string option"
  to_int :: "pyval \<Rightarrow> int option"
  to_float :: "pyval \<Rightarrow> pyfloat option"
  to_bool :: "pyval \<Rightarrow> bool option"
  to_datetime :: "pyval \<Rightarrow> int option"
  to_dict :: "pyval \<Rightarrow> pydict option"

text \<open>The library that converts nothing; it closes examples whose values are all of
  their field's own type, where no conversion is attempted.\<close>

definition no_coercion :: coercions where
  "no_coercion = \<lparr>to_str = (\<lambda>_. None), to_int = (\<lambda>_. None), to_float = (\<lambda>_. None),
     to_bool = (\<lambda>_. None), to_datetime = (\<lambda>_. None), to_dict = (\<lambda>_. None)\<rparr>"

section \<open>Regular expressions\<close>

text \<open>
  The fragment of Python's \<^verbatim>\<open>re\<close> syntax used by the schemas: \<^verbatim>\<open>^\<close>, \<^verbatim>\<open>$\<close>, a literal
  character, a negated one-character class \<^verbatim>\<open>[^c]\<close>, and \<^verbatim>\<open>+\<close> on either.
  \<open>re_match\<close> is \<^verbatim>\<open>re.match\<close> without flags: the match starts at the beginning of the
  string and may stop anywhere; \<^verbatim>\<open>^\<close> holds only at the beginning, \<^verbatim>\<open>$\<close> at the
  end and just before a newline that ends the string.
\<close>

datatype atom = Lit char | NotLit char

datatype item = Bol | Eol | One atom | Many1 atom

type_synonym regex = "item list"

fun amatch :: "atom \<Rightarrow> char \<Rightarrow> bool" where
  "amatch (Lit c) x = (x = c)"
| "amatch (NotLit c) x = (x \<noteq> c)"

fun rmatch :: "regex \<Rightarrow> bool \<Rightarrow> string \<Rightarrow> bool" where
  "rmatch [] at_start s = True"
| "rmatch (Bol # r) at_start s = (at_start \<and> rmatch r at_start s)"
| "rmatch (Eol # r) at_start s = ((s = [] \<or> s = [CHR 0x0A]) \<and> rmatch r at_start s)"
| "rmatch (One a # r) at_start [] = False"
| "rmatch (One a # r) at_start (x # xs) = (amatch a x \<and> rmatch r False xs)"
| "rmatch (Many1 a # r) at_start [] = False"
| "rmatch (Many1 a # r) at_start (x # xs) =
     (amatch a x \<and> (rmatch (Many1 a # r) False xs \<or> rmatch r False xs))"

definition re_match :: "regex \<Rightarrow> string \<Rightarrow> bool" where
  "re_match r s = rmatch r True s"

text \<open>\<^verbatim>\<open>r"^[^@]+@[^@]+$"\<close>\<close>

definition mail_regex :: regex where
  "mail_regex = [Bol, Many1 (NotLit (CHR ''@'')), One (Lit (CHR ''@'')),
                 Many1 (NotLit (CHR ''@'')), Eol]"

section \<open>The pydantic field machinery\<close>

subsection \<open>Type validators\<close>

text \<open>\<^verbatim>\<open>str_validator\<close>, \<^verbatim>\<open>int_validator\<close>, \<^verbatim>\<open>float_validator\<close>, \<^verbatim>\<open>bool_validator\<close> and
  \<^verbatim>\<open>parse_datetime\<close>: a value of the type itself is returned, any other value goes
  through the library's conversion.\<close>

definition str_validator :: "coercions \<Rightarrow> pyval \<Rightarrow> err + string" where
  "str_validator K v =
     (case v of VStr s \<Rightarrow> Inr s
      | _ \<Rightarrow> (case to_str K v of Some s \<Rightarrow> Inr s | None \<Rightarrow> Inl StrError))"

definition int_validator :: "coercions \<Rightarrow> pyval \<Rightarrow> err + int" where
  "int_validator K v =
     (case v of VInt i \<Rightarrow> Inr i
      | _ \<Rightarrow> (case to_int K v of Some i \<Rightarrow> Inr i | None \<Rightarrow> Inl IntegerError))"

definition float_validator :: "coercions \<Rightarrow> pyval \<Rightarrow> err + pyfloat" where
  "float_validator K v =
     (case v of VFloat x \<Rightarrow> Inr x
      | _ \<Rightarrow> (case to_float K v of Some x \<Rightarrow> Inr x | None \<Rightarrow> Inl FloatError))"

definition bool_validator :: "coercions \<Rightarrow> pyval \<Rightarrow> err + bool" where
  "bool_validator K v =
     (case v of VBool b \<Rightarrow> Inr b
      | _ \<Rightarrow> (case to_bool K v of Some b \<Rightarrow> Inr b | None \<Rightarrow> Inl BoolError))"

definition parse_datetime :: "coercions \<Rightarrow> pyval \<Rightarrow> err + int" where
  "parse_datetime K v =
     (case v of VDatetime t \<Rightarrow> Inr t
      | _ \<Rightarrow> (case to_datetime K v of Some t \<Rightarrow> Inr t | None \<Rightarrow> Inl DateTimeError))"

text \<open>Python's \<^verbatim>\<open>x > b\<close> and \<^verbatim>\<open>x <= b\<close> for a float \<open>x\<close> and a finite bound \<open>b\<close>;
  every comparison with NaN is false.\<close>

fun float_gt :: "pyfloat \<Rightarrow> rat \<Rightarrow> bool" where
  "float_gt (Fin x) b = (x > b)"
| "float_gt PosInf b = True"
| "float_gt NegInf b = False"
| "float_gt NaN b = False"

fun float_le :: "pyfloat \<Rightarrow> rat \<Rightarrow> bool" where
  "float_le (Fin x) b = (x \<le> b)"
| "float_le PosInf b = False"
| "float_le NegInf b = True"
| "float_le NaN b = False"

text \<open>\<^verbatim>\<open>number_size_validator\<close> for the bounds \<^verbatim>\<open>gt\<close> and \<^verbatim>\<open>le\<close>: \<^verbatim>\<open>gt\<close> is checked first.\<close>

definition number_size_validator :: "rat option \<Rightarrow> rat option \<Rightarrow> pyfloat \<Rightarrow> err + pyfloat" where
  "number_size_validator gt le x =
     (case gt of
        Some g \<Rightarrow> if \<not> float_gt x g then Inl (NumberNotGtError g)
                  else (case le of
                          Some l \<Rightarrow> if \<not> float_le x l then Inl (NumberNotLeError l) else Inr x
                        | None \<Rightarrow> Inr x)
      | None \<Rightarrow> (case le of
                   Some l \<Rightarrow> if \<not> float_le x l then Inl (NumberNotLeError l) else Inr x
                 | None \<Rightarrow> Inr x))"

text \<open>\<^verbatim>\<open>confloat(gt=..., le=...)\<close>: conversion to float, then the bounds.
  By default infinities and NaN are allowed as far as the bounds allow them.\<close>

definition confloat_validate :: "coercions \<Rightarrow> rat option \<Rightarrow> rat option \<Rightarrow> pyval \<Rightarrow> err + pyval" where
  "confloat_validate K gt le v =
     (case float_validator K v of
        Inl e \<Rightarrow> Inl e
      | Inr x \<Rightarrow> (case number_size_validator gt le x of
                   Inl e \<Rightarrow> Inl e
                 | Inr y \<Rightarrow> Inr (VFloat y)))"

text \<open>\<^verbatim>\<open>constr(max_length=..., regex=...)\<close>: conversion to str, then
  \<^verbatim>\<open>constr_length_validator\<close>, then the regex of \<^verbatim>\<open>ConstrainedStr.validate\<close>. The first
  failure is the field's error.\<close>

definition constr_validate :: "coercions \<Rightarrow> nat option \<Rightarrow> regex option \<Rightarrow> pyval \<Rightarrow> err + pyval" where
  "constr_validate K max_length rx v =
     (case str_validator K v of
        Inl e \<Rightarrow> Inl e
      | Inr s \<Rightarrow>
          (case max_length of
             Some n \<Rightarrow>
               if length s > n then Inl (AnyStrMaxLengthError n)
               else (case rx of
                       Some r \<Rightarrow> if \<not> re_match r s then Inl StrRegexError else Inr (VStr s)
                     | None \<Rightarrow> Inr (VStr s))
           | None \<Rightarrow>
               (case rx of
                  Some r \<Rightarrow> if \<not> re_match r s then Inl StrRegexError else Inr (VStr s)
                | None \<Rightarrow> Inr (VStr s))))"

subsection \<open>Field types and fields\<close>

text \<open>How a model with \<^verbatim>\<open>orm_mode\<close> reads an object that is neither a dict nor an
  instance of itself: not at all, by the inherited \<^verbatim>\<open>from_orm\<close> (every field is an
  attribute read with a default), or by the class's own \<^verbatim>\<open>from_orm\<close>, which builds
  the keyword arguments and may raise.\<close>

datatype orm = NoOrm | OrmDefault | OrmCustom "pyval \<Rightarrow> exc + pydict"

text \<open>A class validator declared with \<^verbatim>\<open>@validator\<close>: it gets the field's validated
  value and the dict \<^verbatim>\<open>values\<close> of the fields before it; \<open>Inl msg\<close> is
  \<^verbatim>\<open>raise ValueError(msg)\<close>.\<close>

type_synonym cls_validator = "pyval \<Rightarrow> pydict \<Rightarrow> string + pyval"

datatype ftype =
    TAny
  | TInt
  | TBool
  | TFloat "rat option" "rat option"
  | TStr "nat option" "regex option"
  | TDatetime
  | TList ftype
  | TModel string "field list" orm
and field =
    Field (fname: string) (ftp: ftype) (required: bool) (allow_none: bool)
          (post_validators: "cls_validator list")

text \<open>An annotation \<^verbatim>\<open>x: T\<close> without default is a required field that rejects
  \<^verbatim>\<open>None\<close>; \<^verbatim>\<open>x: Optional[T]\<close> is not required, defaults to \<^verbatim>\<open>None\<close> and accepts
  \<^verbatim>\<open>None\<close>.\<close>

definition req :: "string \<Rightarrow> ftype \<Rightarrow> field" where
  "req n T = Field n T True False []"

definition opt :: "string \<Rightarrow> ftype \<Rightarrow> field" where
  "opt n T = Field n T False True []"

definition with_validator :: "field \<Rightarrow> cls_validator \<Rightarrow> field" where
  "with_validator f g =
     Field (fname f) (ftp f) (required f) (allow_none f) (post_validators f @ [g])"

abbreviation float_t :: ftype where "float_t \<equiv> TFloat None None"
abbreviation str_t :: ftype where "str_t \<equiv> TStr None None"

subsection \<open>Validation\<close>

text \<open>\<^verbatim>\<open>ModelField._apply_validators\<close> for the class validators of a field: a
  \<^verbatim>\<open>ValueError\<close> becomes the field's error.\<close>

fun apply_validators :: "cls_validator list \<Rightarrow> pyval \<Rightarrow> pydict \<Rightarrow> loc \<Rightarrow> pyval res" where
  "apply_validators [] v values loc = Ok v"
| "apply_validators (g # gs) v values loc =
     (case g v values of
        Inl msg \<Rightarrow> Errs [(loc, ValueError msg)]
      | Inr v' \<Rightarrow> apply_validators gs v' values loc)"

definition lift_err :: "loc \<Rightarrow> err + pyval \<Rightarrow> pyval res" where
  "lift_err loc r = (case r of Inl e \<Rightarrow> Errs [(loc, e)] | Inr v \<Rightarrow> Ok v)"

text \<open>The attributes of an object; a built-in value has none of the attributes the
  schemas read.\<close>

fun attrs_of :: "pyval \<Rightarrow> pydict" where
  "attrs_of (VObj as) = as"
| "attrs_of (VModel c vals fs) = vals"
| "attrs_of _ = []"

text \<open>\<^verbatim>\<open>BaseModel.validate(value)\<close>, first part: an instance of the class is kept
  (\<open>None\<close> below), a dict gives the keyword arguments, anything else goes through
  \<^verbatim>\<open>from_orm\<close> when \<^verbatim>\<open>orm_mode\<close> is set and through \<^verbatim>\<open>dict(value)\<close> otherwise.\<close>

definition from_other :: "coercions \<Rightarrow> orm \<Rightarrow> pyval \<Rightarrow> pydict res" where
  "from_other K m v =
     (case m of
        OrmCustom g \<Rightarrow> (case g v of Inl e \<Rightarrow> Raise e | Inr kw \<Rightarrow> Ok kw)
      | OrmDefault \<Rightarrow> Ok (attrs_of v)
      | NoOrm \<Rightarrow> (case to_dict K v of None \<Rightarrow> Errs [([], DictError)] | Some d \<Rightarrow> Ok d))"

definition model_source :: "coercions \<Rightarrow> string \<Rightarrow> orm \<Rightarrow> pyval \<Rightarrow> (pydict res) option" where
  "model_source K cls m v =
     (case v of
        VModel c vals fs \<Rightarrow> if c = cls then None else Some (from_other K m v)
      | VDict d \<Rightarrow> Some (Ok d)
      | _ \<Rightarrow> Some (from_other K m v))"

definition at_loc :: "loc \<Rightarrow> errs \<Rightarrow> errs" where
  "at_loc loc es = map (\<lambda>(l, e). (loc @ l, e)) es"

text \<open>The loop of \<^verbatim>\<open>validate_model\<close> keeps the state
  \<open>(values, fields_set, errors)\<close>. A field missing from the input: \<^verbatim>\<open>MissingError\<close>
  when required (and no entry in \<^verbatim>\<open>values\<close>), otherwise the default \<^verbatim>\<open>None\<close> is
  stored in \<^verbatim>\<open>values\<close> and no validator runs.\<close>

type_synonym vstate = "pydict \<times> string list \<times> errs"

fun absent_field :: "field \<Rightarrow> vstate \<Rightarrow> vstate" where
  "absent_field f (values, fields_set, errors) =
     (if required f
      then (values, fields_set, errors @ [([LName (fname f)], MissingError)])
      else (values @ [(fname f, VNone)], fields_set, errors))"

text \<open>A supplied field is added to \<^verbatim>\<open>fields_set\<close> before it is validated; on success
  the value is stored in \<^verbatim>\<open>values\<close>, on failure the errors are collected and
  \<^verbatim>\<open>values\<close> gets no entry. An exception that is no \<^verbatim>\<open>ValueError\<close>, \<^verbatim>\<open>TypeError\<close> or
  \<^verbatim>\<open>AssertionError\<close> is not caught and ends the whole validation.\<close>

fun supplied_field :: "field \<Rightarrow> vstate \<Rightarrow> pyval res \<Rightarrow> exc + vstate" where
  "supplied_field f (values, fields_set, errors) (Raise e) = Inl e"
| "supplied_field f (values, fields_set, errors) (Errs es) =
     Inr (values, fields_set @ [fname f], errors @ es)"
| "supplied_field f (values, fields_set, errors) (Ok v) =
     Inr (values @ [(fname f, v)], fields_set @ [fname f], errors)"

text \<open>\<^verbatim>\<open>ModelField.validate\<close> on \<^verbatim>\<open>None\<close>: an error unless \<^verbatim>\<open>None\<close> is allowed, in
  which case only the class validators run.\<close>

definition validate_none :: "field \<Rightarrow> pydict \<Rightarrow> pyval res" where
  "validate_none f values =
     (if allow_none f
      then apply_validators (post_validators f) VNone values [LName (fname f)]
      else Errs [([LName (fname f)], NoneIsNotAllowedError)])"

text \<open>... and on any other value: the class validators run after the type's
  validators, when those succeeded.\<close>

fun then_validators :: "field \<Rightarrow> pydict \<Rightarrow> pyval res \<Rightarrow> pyval res" where
  "then_validators f values (Ok v) =
     apply_validators (post_validators f) v values [LName (fname f)]"
| "then_validators f values r = r"

text \<open>The end of \<^verbatim>\<open>_validate_sequence_like\<close> and of \<^verbatim>\<open>BaseModel.validate\<close>.\<close>

fun list_result :: "exc + (pyval list \<times> errs) \<Rightarrow> pyval res" where
  "list_result (Inl e) = Raise e"
| "list_result (Inr (ys, es)) = (if es = [] then Ok (VList ys) else Errs es)"

fun model_result :: "string \<Rightarrow> loc \<Rightarrow> exc + vstate \<Rightarrow> pyval res" where
  "model_result cls loc (Inl e) = Raise e"
| "model_result cls loc (Inr (values, fields_set, errors)) =
     (if errors = [] then Ok (VModel cls values fields_set) else Errs (at_loc loc errors))"

fun add_item :: "pyval res \<Rightarrow> exc + (pyval list \<times> errs) \<Rightarrow> exc + (pyval list \<times> errs)" where
  "add_item (Raise e) rest = Inl e"
| "add_item r (Inl e) = Inl e"
| "add_item (Errs es) (Inr (ys, es')) = Inr (ys, es @ es')"
| "add_item (Ok y) (Inr (ys, es')) = Inr (y # ys, es')"

text \<open>
  \<open>validate_type\<close> runs the validators of a field type, \<open>validate_items\<close> is the
  loop of \<^verbatim>\<open>_validate_sequence_like\<close> over the items of a list (item \<open>i\<close> is reported at
  \<open>loc + (i,)\<close>; only an item of type \<^verbatim>\<open>Any\<close> may be \<^verbatim>\<open>None\<close>), \<open>validate_field\<close> is
  \<^verbatim>\<open>ModelField.validate\<close> and \<open>validate_fields\<close> the loop of \<^verbatim>\<open>validate_model\<close> over
  the declared fields, in declaration order.
\<close>

function (sequential) validate_type :: "coercions \<Rightarrow> ftype \<Rightarrow> pyval \<Rightarrow> loc \<Rightarrow> pyval res"
and validate_items :: "coercions \<Rightarrow> ftype \<Rightarrow> pyval list \<Rightarrow> nat \<Rightarrow> loc \<Rightarrow> exc + (pyval list \<times> errs)"
and validate_field :: "coercions \<Rightarrow> field \<Rightarrow> pyval \<Rightarrow> pydict \<Rightarrow> pyval res"
and validate_fields :: "coercions \<Rightarrow> field list \<Rightarrow> pydict \<Rightarrow> vstate \<Rightarrow> exc + vstate"
where
  "validate_type K TAny v loc = Ok v"
| "validate_type K TInt v loc = lift_err loc (map_sum id VInt (int_validator K v))"
| "validate_type K TBool v loc = lift_err loc (map_sum id VBool (bool_validator K v))"
| "validate_type K (TFloat gt le) v loc = lift_err loc (confloat_validate K gt le v)"
| "validate_type K (TStr max_length rx) v loc = lift_err loc (constr_validate K max_length rx v)"
| "validate_type K TDatetime v loc = lift_err loc (map_sum id VDatetime (parse_datetime K v))"
| "validate_type K (TList T) v loc =
     (case v of
        VList xs \<Rightarrow> list_result (validate_items K T xs 0 loc)
      | _ \<Rightarrow> Errs [(loc, ListError)])"
| "validate_type K (TModel cls fs m) v loc =
     (case model_source K cls m v of
        None \<Rightarrow> Ok v
      | Some (Raise e) \<Rightarrow> Raise e
      | Some (Errs es) \<Rightarrow> Errs (at_loc loc es)
      | Some (Ok d) \<Rightarrow> model_result cls loc (validate_fields K fs d ([], [], [])))"
| "validate_items K T [] i loc = Inr ([], [])"
| "validate_items K T (x # xs) i loc =
     add_item
       (if x = VNone
        then (if T = TAny then Ok VNone else Errs [(loc @ [LIdx i], NoneIsNotAllowedError)])
        else validate_type K T x (loc @ [LIdx i]))
       (validate_items K T xs (Suc i) loc)"
| "validate_field K f v values =
     (if v = VNone then validate_none f values
      else then_validators f values (validate_type K (ftp f) v [LName (fname f)]))"
| "validate_fields K [] inp st = Inr st"
| "validate_fields K (f # fs) inp st =
     (case map_of inp (fname f) of
        None \<Rightarrow> validate_fields K fs inp (absent_field f st)
      | Some v \<Rightarrow>
          (case supplied_field f st (validate_field K f v (fst st)) of
             Inl e \<Rightarrow> Inl e
           | Inr st' \<Rightarrow> validate_fields K fs inp st'))"

  by pat_completeness auto

termination
  apply (relation "inv_image (less_than <*lex*> less_than)
        (\<lambda>x. case x of
            Inl (Inl (K, T, v, loc)) \<Rightarrow> (size T, 0)
          | Inl (Inr (K, T, xs, i, loc)) \<Rightarrow> (size T, Suc (length xs))
          | Inr (Inl (K, f, v, vals)) \<Rightarrow> (size f, 0)
          | Inr (Inr (K, fs, inp, st)) \<Rightarrow> (size_list size fs, 0))")
       apply auto
  subgoal for f v by (cases f) simp
  done

text \<open>\<^verbatim>\<open>validate_model(cls, input_data)\<close> and \<^verbatim>\<open>BaseModel.__init__(**data)\<close>: the
  constructor raises \<^verbatim>\<open>ValidationError\<close> with all collected errors, or returns the
  instance. Keys of the input that name no field are ignored.\<close>

definition validate_model :: "coercions \<Rightarrow> field list \<Rightarrow> pydict \<Rightarrow> exc + vstate" where
  "validate_model K fs inp = validate_fields K fs inp ([], [], [])"

definition construct :: "coercions \<Rightarrow> string \<Rightarrow> field list \<Rightarrow> pydict \<Rightarrow> exc + pyval" where
  "construct K cls fs inp =
     (case validate_model K fs inp of
        Inl e \<Rightarrow> Inl e
      | Inr (values, fields_set, errors) \<Rightarrow>
          if errors = [] then Inr (VModel cls values fields_set)
          else Inl (ValidationError cls errors))"

subsection \<open>Attribute access\<close>

text \<open>\<^verbatim>\<open>obj.a\<close> raises \<^verbatim>\<open>AttributeError\<close> when the object has no attribute \<open>a\<close>; in
  particular \<^verbatim>\<open>None.a\<close> does. \<open>attr_path obj [a, b]\<close> is \<^verbatim>\<open>obj.a.b\<close>, and
  \<open>read_kwargs\<close> evaluates the keyword arguments of a call from left to right.\<close>

definition getattr :: "pyval \<Rightarrow> string \<Rightarrow> exc + pyval" where
  "getattr obj a =
     (case map_of (attrs_of obj) a of None \<Rightarrow> Inl (AttributeError a) | Some v \<Rightarrow> Inr v)"

fun attr_path :: "pyval \<Rightarrow> string list \<Rightarrow> exc + pyval" where
  "attr_path obj [] = Inr obj"
| "attr_path obj (a # as) =
     (case getattr obj a of Inl e \<Rightarrow> Inl e | Inr v \<Rightarrow> attr_path v as)"

fun read_kwargs :: "pyval \<Rightarrow> (string \<times> string list) list \<Rightarrow> exc + pydict" where
  "read_kwargs obj [] = Inr []"
| "read_kwargs obj ((k, path) # rest) =
     (case attr_path obj path of
        Inl e \<Rightarrow> Inl e
      | Inr v \<Rightarrow> (case read_kwargs obj rest of Inl e \<Rightarrow> Inl e | Inr kw \<Rightarrow> Inr ((k, v) # kw)))"

text \<open>A \<^verbatim>\<open>from_orm\<close> written in the schema module: read the keyword arguments, then
  call the constructor.\<close>

definition custom_from_orm ::
  "coercions \<Rightarrow> string \<Rightarrow> field list \<Rightarrow> (string \<times> string list) list \<Rightarrow> pyval \<Rightarrow> exc + pyval" where
  "custom_from_orm K cls fs kwargs obj =
     (case read_kwargs obj kwargs of Inl e \<Rightarrow> Inl e | Inr kw \<Rightarrow> construct K cls fs kw)"

section \<open>The schemas of \<^verbatim>\<open>screfinery/schema.py\<close>\<close>

abbreviation constr :: "nat \<Rightarrow> ftype" where
  "constr n \<equiv> TStr (Some n) None"

definition Related_fields :: "field list" where
  "Related_fields = [req ''id'' TInt, req ''name'' str_t]"

definition Related :: ftype where
  "Related = TModel ''Related'' Related_fields OrmDefault"

subsection \<open>ListResponse\<close>

text \<open>\<^verbatim>\<open>ListResponse[T]\<close>; the unparametrised class has the type variable \<^verbatim>\<open>ItemT\<close>
  as item type, which pydantic validates as \<^verbatim>\<open>Any\<close>.\<close>

definition ListResponse_fields :: "ftype \<Rightarrow> field list" where
  "ListResponse_fields ItemT = [req ''total_count'' TInt, req ''items'' (TList ItemT)]"

definition ListResponse :: "coercions \<Rightarrow> ftype \<Rightarrow> pydict \<Rightarrow> exc + pyval" where
  "ListResponse K ItemT = construct K ''ListResponse'' (ListResponse_fields ItemT)"

subsection \<open>Friendship\<close>

definition Friendship_fields :: "field list" where
  "Friendship_fields =
     [req ''user_id'' TInt,
      req ''user_name'' str_t,
      req ''friend_id'' TInt,
      req ''friend_name'' str_t,
      req ''created'' TDatetime,
      opt ''confirmed'' TDatetime]"

definition Friendship_kwargs :: "(string \<times> string list) list" where
  "Friendship_kwargs =
     [(''user_id'', [''user_id'']),
      (''user_name'', [''user'', ''name'']),
      (''friend_id'', [''friend_id'']),
      (''friend_name'', [''friend'', ''name'']),
      (''created'', [''created'']),
      (''confirmed'', [''confirmed''])]"

definition Friendship_from_orm :: "coercions \<Rightarrow> pyval \<Rightarrow> exc + pyval" where
  "Friendship_from_orm K = custom_from_orm K ''Friendship'' Friendship_fields Friendship_kwargs"

definition FriendshipUpdate_fields :: "field list" where
  "FriendshipUpdate_fields =
     [req ''user_id'' TInt,
      opt ''user_name'' (constr 50),
      req ''friend_id'' TInt,
      opt ''friend_name'' (constr 50),
      opt ''confirmed'' TDatetime,
      opt ''name'' (constr 50)]"

subsection \<open>User\<close>

text \<open>The class validator \<^verbatim>\<open>passwords_match\<close> of \<^verbatim>\<open>UserCreate\<close> and \<^verbatim>\<open>UserUpdate\<close>.\<close>

definition passwords_match :: cls_validator where
  "passwords_match value values =
     (if map_of values ''password'' \<noteq> None \<and> Some value \<noteq> map_of values ''password''
      then Inl ''passwords do not match''
      else Inr value)"

definition mail_t :: ftype where
  "mail_t = TStr (Some 250) (Some mail_regex)"

definition UserCreate_fields :: "field list" where
  "UserCreate_fields =
     [req ''name'' (constr 50),
      req ''mail'' mail_t,
      req ''password'' (constr 250),
      with_validator (req ''password_confirm'' (constr 250)) passwords_match,
      req ''is_google'' TBool,
      req ''is_active'' TBool,
      opt ''scopes'' (TList (constr 50))]"

definition UserUpdate_fields :: "field list" where
  "UserUpdate_fields =
     [opt ''name'' (constr 50),
      opt ''mail'' mail_t,
      opt ''password'' (constr 250),
      with_validator (opt ''password_confirm'' (constr 250)) passwords_match,
      opt ''is_google'' TBool,
      opt ''is_active'' TBool,
      opt ''scopes'' (TList (constr 50))]"

subsection \<open>Ore, Station, Method\<close>

definition OreUpdate_fields :: "field list" where
  "OreUpdate_fields = [opt ''name'' (constr 50)]"

definition StationOreEfficiency_fields :: "field list" where
  "StationOreEfficiency_fields =
     [req ''efficiency_bonus'' float_t,
      req ''ore_id'' TInt,
      opt ''ore_name'' str_t]"

definition StationOreEfficiency_kwargs :: "(string \<times> string list) list" where
  "StationOreEfficiency_kwargs =
     [(''efficiency_bonus'', [''efficiency_bonus'']),
      (''ore_id'', [''ore_id'']),
      (''ore_name'', [''ore'', ''name''])]"

definition StationOreEfficiency_from_orm :: "coercions \<Rightarrow> pyval \<Rightarrow> exc + pyval" where
  "StationOreEfficiency_from_orm K =
     custom_from_orm K ''StationOreEfficiency'' StationOreEfficiency_fields
       StationOreEfficiency_kwargs"

definition StationOreEfficiency :: ftype where
  "StationOreEfficiency =
     TModel ''StationOreEfficiency'' StationOreEfficiency_fields
       (OrmCustom (\<lambda>obj. read_kwargs obj StationOreEfficiency_kwargs))"

definition StationUpdate_fields :: "field list" where
  "StationUpdate_fields =
     [opt ''name'' (constr 50),
      opt ''efficiencies'' (TList StationOreEfficiency)]"

definition MethodOreEfficiency_fields :: "field list" where
  "MethodOreEfficiency_fields =
     [req ''efficiency'' (TFloat (Some 0) (Some 1)),
      req ''duration'' (TFloat (Some 0) None),
      req ''ore_id'' TInt,
      opt ''ore_name'' str_t]"

definition MethodOreEfficiency_kwargs :: "(string \<times> string list) list" where
  "MethodOreEfficiency_kwargs =
     [(''efficiency'', [''efficiency'']),
      (''duration'', [''duration'']),
      (''ore_id'', [''ore_id'']),
      (''ore_name'', [''ore'', ''name''])]"

definition MethodOreEfficiency_from_orm :: "coercions \<Rightarrow> pyval \<Rightarrow> exc + pyval" where
  "MethodOreEfficiency_from_orm K =
     custom_from_orm K ''MethodOreEfficiency'' MethodOreEfficiency_fields
       MethodOreEfficiency_kwargs"

definition MethodOreEfficiency :: ftype where
  "MethodOreEfficiency =
     TModel ''MethodOreEfficiency'' MethodOreEfficiency_fields
       (OrmCustom (\<lambda>obj. read_kwargs obj MethodOreEfficiency_kwargs))"

definition MethodUpdate_fields :: "field list" where
  "MethodUpdate_fields =
     [opt ''name'' (constr 50),
      opt ''efficiencies'' (TList MethodOreEfficiency)]"

subsection \<open>MiningSession\<close>

definition MiningSessionUpdate_fields :: "field list" where
  "MiningSessionUpdate_fields =
     [opt ''name'' (constr 50),
      opt ''archived'' TDatetime,
      opt ''yield_scu'' float_t,
      opt ''yield_uec'' float_t,
      opt ''users_invited'' (TList Related)]"

section \<open>Notions used to state the properties\<close>

text \<open>Every error of the list is located at \<open>loc\<close> or below it.\<close>

definition errs_under :: "loc \<Rightarrow> errs \<Rightarrow> bool" where
  "errs_under loc es = list_all (\<lambda>(l, e). take (length loc) l = loc) es"

text \<open>The field an error location starts with, and the errors whose locations all start with
  one of the fields \<open>N\<close>.\<close>

fun loc_field :: "loc \<Rightarrow> string option" where
  "loc_field (LName n # t) = Some n"
| "loc_field _ = None"

definition errs_of_fields :: "string set \<Rightarrow> errs \<Rightarrow> bool" where
  "errs_of_fields N es = list_all (\<lambda>(l, e). \<exists>n\<in>N. loc_field l = Some n) es"

text \<open>The payload without the key \<open>n\<close>.\<close>

definition omit :: "string \<Rightarrow> pydict \<Rightarrow> pydict" where
  "omit n inp = filter (\<lambda>(k, v). k \<noteq> n) inp"

text \<open>A field type without a nested model: its validation cannot raise.\<close>

fun plain :: "ftype \<Rightarrow> bool" where
  "plain (TList T) = plain T"
| "plain (TModel cls fs m) = False"
| "plain T = True"

text \<open>A value of the field type's own Python type that satisfies the declared constraints:
  what a type validator returns as it is. An instance of a model class is native to it; a
  dict, which the model constructor turns into an instance, is not.\<close>

fun native :: "ftype \<Rightarrow> pyval \<Rightarrow> bool"
and native_items :: "ftype \<Rightarrow> pyval list \<Rightarrow> bool" where
  "native TAny v = True"
| "native TInt (VInt i) = True"
| "native TBool (VBool b) = True"
| "native (TFloat gt le) (VFloat x) =
     ((case gt of Some g \<Rightarrow> float_gt x g | None \<Rightarrow> True) \<and>
      (case le of Some l \<Rightarrow> float_le x l | None \<Rightarrow> True))"
| "native (TStr max_length rx) (VStr s) =
     ((case max_length of Some n \<Rightarrow> length s \<le> n | None \<Rightarrow> True) \<and>
      (case rx of Some r \<Rightarrow> re_match r s | None \<Rightarrow> True))"
| "native TDatetime (VDatetime t) = True"
| "native (TList T) (VList xs) = native_items T xs"
| "native (TModel cls fs m) (VModel c vals fset) = (c = cls)"
| "native T v = False"
| "native_items T [] = True"
| "native_items T (x # xs) = (native T x \<and> native_items T xs)"

text \<open>What the loop of \<^verbatim>\<open>validate_model\<close> adds for one field, given the \<^verbatim>\<open>values\<close> collected
  before it: the errors, and the entry of \<^verbatim>\<open>values\<close> (\<open>None\<close> when there is no entry).\<close>

definition field_errs :: "coercions \<Rightarrow> field \<Rightarrow> pydict \<Rightarrow> pydict \<Rightarrow> errs" where
  "field_errs K f inp vals =
     (case map_of inp (fname f) of
        None \<Rightarrow> if required f then [([LName (fname f)], MissingError)] else []
      | Some v \<Rightarrow> (case validate_field K f v vals of Errs es \<Rightarrow> es | _ \<Rightarrow> []))"

definition field_value :: "coercions \<Rightarrow> field \<Rightarrow> pydict \<Rightarrow> pydict \<Rightarrow> pyval option" where
  "field_value K f inp vals =
     (case map_of inp (fname f) of
        None \<Rightarrow> if required f then None else Some VNone
      | Some v \<Rightarrow> (case validate_field K f v vals of Ok w \<Rightarrow> Some w | _ \<Rightarrow> None))"

text \<open>The errors located at (or below) the field \<open>n\<close>.\<close>

definition errs_at :: "string \<Rightarrow> errs \<Rightarrow> errs" where
  "errs_at n es = filter (\<lambda>(l, e). loc_field l = Some n) es"


text \<open>The error that \<^verbatim>\<open>passwords_match\<close> attaches to \<^verbatim>\<open>password_confirm\<close>.\<close>

definition mismatch :: "loc \<times> err" where
  "mismatch = ([LName ''password_confirm''], ValueError ''passwords do not match'')"

text \<open>\<^verbatim>\<open>UserCreate\<close> and \<^verbatim>\<open>UserUpdate\<close> declare the same fields, required in the one and
  optional in the other (\<^verbatim>\<open>scopes\<close> is optional in both).\<close>

definition user_fields :: "(string \<Rightarrow> ftype \<Rightarrow> field) \<Rightarrow> field list" where
  "user_fields mk =
     [mk ''name'' (constr 50),
      mk ''mail'' mail_t,
      mk ''password'' (constr 250),
      with_validator (mk ''password_confirm'' (constr 250)) passwords_match,
      mk ''is_google'' TBool,
      mk ''is_active'' TBool,
      opt ''scopes'' (TList (constr 50))]"

text \<open>The errors that are not located at (or below) the field \<open>n\<close>.\<close>

definition errs_not_at :: "string \<Rightarrow> errs \<Rightarrow> errs" where
  "errs_not_at n es = filter (\<lambda>(l, e). loc_field l \<noteq> Some n) es"

text \<open>The six Update schemas of the module.\<close>

definition update_schemas :: "(string \<times> field list) list" where
  "update_schemas =
     [(''UserUpdate'', UserUpdate_fields),
      (''OreUpdate'', OreUpdate_fields),
      (''StationUpdate'', StationUpdate_fields),
      (''MethodUpdate'', MethodUpdate_fields),
      (''MiningSessionUpdate'', MiningSessionUpdate_fields),
      (''FriendshipUpdate'', FriendshipUpdate_fields)]"

section \<open>General facts about validation\<close>

lemma errs_under_Nil [simp]: "errs_under loc []"
  by (simp add: errs_under_def)

lemma errs_under_Cons [simp]:
  "errs_under loc ((l, e) # es) \<longleftrightarrow> take (length loc) l = loc \<and> errs_under loc es"
  by (simp add: errs_under_def)

lemma errs_under_append [simp]:
  "errs_under loc (es @ es') \<longleftrightarrow> errs_under loc es \<and> errs_under loc es'"
  by (simp add: errs_under_def)

lemma errs_under_weaken: "errs_under (loc @ t) es \<Longrightarrow> errs_under loc es"
  unfolding errs_under_def list_all_iff
  by (auto simp: take_eq_Nil dest!: bspec) (metis append_eq_conv_conj append_take_drop_id take_append take_all_iff order_refl append.assoc)

lemma errs_under_at_loc [simp]: "errs_under loc (at_loc loc es)"
  by (auto simp: errs_under_def at_loc_def list_all_iff)

lemma lift_err_under: "lift_err loc r = Errs es \<Longrightarrow> errs_under loc es"
  by (auto simp: lift_err_def split: sum.splits)

lemma apply_validators_under: "apply_validators gs v vals loc = Errs es \<Longrightarrow> errs_under loc es"
  by (induction gs arbitrary: v) (auto split: sum.splits)

lemma errs_under_field:
  "errs_under [LName n] es \<Longrightarrow> errs_of_fields {n} es"
  unfolding errs_under_def errs_of_fields_def list_all_iff
  apply auto subgoal for l e by (cases l rule: loc_field.cases) auto done

lemma errs_of_fields_mono: "errs_of_fields N es \<Longrightarrow> N \<subseteq> M \<Longrightarrow> errs_of_fields M es"
  unfolding errs_of_fields_def list_all_iff by blast

lemma errs_of_fields_append [simp]:
  "errs_of_fields N (es @ es') \<longleftrightarrow> errs_of_fields N es \<and> errs_of_fields N es'"
  by (simp add: errs_of_fields_def)

lemma errs_of_fields_Nil [simp]: "errs_of_fields N []"
  by (simp add: errs_of_fields_def)

lemma list_result_Errs: "list_result r = Errs es \<longleftrightarrow> (\<exists>ys. r = Inr (ys, es) \<and> es \<noteq> [])"
  by (cases r) (auto simp: at_loc_def split: if_splits)

lemma list_result_Ok: "list_result r = Ok v \<longleftrightarrow> (\<exists>ys. r = Inr (ys, []) \<and> v = VList ys)"
  by (cases r) (auto simp: at_loc_def split: if_splits)

lemma list_result_Raise: "list_result r = Raise e \<longleftrightarrow> r = Inl e"
  by (cases r) (auto simp: at_loc_def split: if_splits)

lemma model_result_Errs:
  "model_result cls loc r = Errs es \<longleftrightarrow>
     (\<exists>vals fset es'. r = Inr (vals, fset, es') \<and> es' \<noteq> [] \<and> es = at_loc loc es')"
  by (cases r) (auto simp: at_loc_def split: if_splits)

lemma model_result_Ok:
  "model_result cls loc r = Ok v \<longleftrightarrow> (\<exists>vals fset. r = Inr (vals, fset, []) \<and> v = VModel cls vals fset)"
  by (cases r) (auto simp: at_loc_def split: if_splits)

lemma model_result_Raise: "model_result cls loc r = Raise e \<longleftrightarrow> r = Inl e"
  by (cases r) (auto simp: at_loc_def split: if_splits)

lemma add_item_Inr:
  "add_item r rest = Inr (ys, es) \<longleftrightarrow>
     (\<exists>ys' es'. rest = Inr (ys', es') \<and>
        ((\<exists>y. r = Ok y \<and> ys = y # ys' \<and> es = es') \<or>
         (\<exists>e1. r = Errs e1 \<and> ys = ys' \<and> es = e1 @ es')))"
  by (cases r; cases rest) auto

lemma add_item_Inl:
  "add_item r rest = Inl e \<longleftrightarrow> r = Raise e \<or> ((\<forall>e'. r \<noteq> Raise e') \<and> rest = Inl e)"
  by (cases r; cases rest) auto

lemma supplied_field_Inr:
  "supplied_field f st r = Inr st' \<longleftrightarrow>
     (\<exists>v. r = Ok v \<and> st' = (fst st @ [(fname f, v)], fst (snd st) @ [fname f], snd (snd st))) \<or>
     (\<exists>es. r = Errs es \<and> st' = (fst st, fst (snd st) @ [fname f], snd (snd st) @ es))"
  by (cases st; cases r) auto

lemma supplied_field_Inl: "supplied_field f st r = Inl e \<longleftrightarrow> r = Raise e"
  by (cases st; cases r) auto

lemma then_validators_Errs:
  "then_validators f vals r = Errs es \<longleftrightarrow>
     r = Errs es \<or> (\<exists>v. r = Ok v \<and> apply_validators (post_validators f) v vals [LName (fname f)] = Errs es)"
  by (cases r) (auto simp: at_loc_def split: if_splits)

lemma absent_field_errs:
  "snd (snd (absent_field f st)) =
     snd (snd st) @ (if required f then [([LName (fname f)], MissingError)] else [])"
  by (cases st) simp

lemma errs_loc:
  shows "validate_type K T v loc = Errs es \<Longrightarrow> errs_under loc es"
  and "validate_items K T xs i loc = Inr (ys, es) \<Longrightarrow> errs_under loc es"
  and "validate_field K f v vals = Errs es \<Longrightarrow> errs_under [LName (fname f)] es"
  and "validate_fields K fs inp st = Inr st' \<Longrightarrow>
         \<exists>e2. snd (snd st') = snd (snd st) @ e2 \<and> errs_of_fields (fname ` set fs) e2"
proof (induction K T v loc and K T xs i loc and K f v vals and K fs inp st
       arbitrary: es and ys es and es and st'
       rule: validate_type_validate_items_validate_field_validate_fields.induct)
  case (1 K v loc)
  then show ?case by simp
next
  case (2 K v loc)
  then show ?case by (simp add: lift_err_under)
next
  case (3 K v loc)
  then show ?case by (simp add: lift_err_under)
next
  case (4 K gt le v loc)
  then show ?case by (simp add: lift_err_under)
next
  case (5 K max_length rx v loc)
  then show ?case by (simp add: lift_err_under)
next
  case (6 K v loc)
  then show ?case by (simp add: lift_err_under)
next
  case (7 K T v loc)
  then show ?case
    by (cases v) (auto simp: list_result_Errs)
next
  case (8 K cls fs m v loc)
  then show ?case
    by (auto simp: model_result_Errs split: option.splits res.splits)
next
  case (9 K T i loc)
  then show ?case by simp
next
  case (10 K T x xs i loc)
  then show ?case
    by (auto simp: add_item_Inr split: if_splits dest: errs_under_weaken)
next
  case (11 K f v vals)
  then show ?case
    by (auto simp: validate_none_def apply_validators_under then_validators_Errs split: if_splits)
next
  case (12 K inp st)
  then show ?case by simp
next
  case (13 K f fs inp st)
  show ?case
  proof (cases "map_of inp (fname f)")
    case None
    with 13 obtain e2 where e2: "snd (snd st') = snd (snd (absent_field f st)) @ e2"
      "errs_of_fields (fname ` set fs) e2" by auto
    have m: "errs_of_fields (fname ` set (f # fs))
               (if required f then [([LName (fname f)], MissingError)] else [])"
      by (simp add: errs_of_fields_def)
    have "errs_of_fields (fname ` set (f # fs)) e2"
      using e2(2) by (rule errs_of_fields_mono) auto
    with m e2(1) show ?thesis
      by (intro exI[of _ "(if required f then [([LName (fname f)], MissingError)] else []) @ e2"])
         (simp add: absent_field_errs)
  next
    case (Some v)
    with "13.prems" obtain b where b: "supplied_field f st (validate_field K f v (fst st)) = Inr b"
      "validate_fields K fs inp b = Inr st'" by (auto split: sum.splits)
    from "13.IH"(3)[OF Some b] obtain e2 where e2: "snd (snd st') = snd (snd b) @ e2"
      "errs_of_fields (fname ` set fs) e2" by auto
    from b(1) consider (ok) w where "validate_field K f v (fst st) = Ok w" "snd (snd b) = snd (snd st)"
      | (er) es where "validate_field K f v (fst st) = Errs es" "snd (snd b) = snd (snd st) @ es"
      by (auto simp: supplied_field_Inr)
    then show ?thesis
    proof cases
      case ok
      have "errs_of_fields (fname ` set (f # fs)) e2"
        using e2(2) by (rule errs_of_fields_mono) auto
      with ok e2 show ?thesis by simp
    next
      case er
      from "13.IH"(2)[OF Some er(1)] have "errs_of_fields {fname f} es"
        by (rule errs_under_field)
      then have "errs_of_fields (fname ` set (f # fs)) es"
        by (rule errs_of_fields_mono) simp
      moreover have "errs_of_fields (fname ` set (f # fs)) e2"
        using e2(2) by (rule errs_of_fields_mono) auto
      ultimately show ?thesis
        using er e2 by (intro exI[of _ "es @ e2"]) simp
    qed
  qed
qed

lemma map_of_omit [simp]: "map_of (omit n inp) k = (if k = n then None else map_of inp k)"
  by (induction inp) (auto simp: omit_def)

lemma validate_fields_append:
  "validate_fields K (fs1 @ fs2) inp st =
     (case validate_fields K fs1 inp st of Inl e \<Rightarrow> Inl e | Inr st1 \<Rightarrow> validate_fields K fs2 inp st1)"
  by (induction fs1 arbitrary: st) (simp_all split: option.splits sum.splits)

lemma validate_fields_total:
  "(\<And>f v vals e. f \<in> set fs \<Longrightarrow> validate_field K f v vals \<noteq> Raise e) \<Longrightarrow>
     \<exists>st'. validate_fields K fs inp st = Inr st'"
proof (induction fs arbitrary: st)
  case Nil
  show ?case by (rule exI[of _ st]) simp
next
  case (Cons f fs)
  show ?case
  proof (cases "map_of inp (fname f)")
    case None
    with Cons show ?thesis by simp
  next
    case (Some v)
    have "\<And>e. validate_field K f v (fst st) \<noteq> Raise e" using Cons.prems by simp
    then obtain b where "supplied_field f st (validate_field K f v (fst st)) = Inr b"
      by (cases "supplied_field f st (validate_field K f v (fst st))") (auto simp: supplied_field_Inl)
    with Some Cons show ?thesis by simp
  qed
qed

lemma validate_fields_values_other:
  "validate_fields K fs inp st = Inr st' \<Longrightarrow> n \<notin> fname ` set fs \<Longrightarrow>
     map_of (fst st') n = map_of (fst st) n"
proof (induction fs arbitrary: st)
  case Nil
  then show ?case by simp
next
  case (Cons f fs)
  show ?case
  proof (cases "map_of inp (fname f)")
    case None
    with Cons.prems have "validate_fields K fs inp (absent_field f st) = Inr st'" by simp
    with Cons have "map_of (fst st') n = map_of (fst (absent_field f st)) n" by simp
    also have "\<dots> = map_of (fst st) n" using Cons.prems(2) by (cases st) (auto simp: map_add_def split: option.splits)
    finally show ?thesis .
  next
    case (Some v)
    with Cons.prems obtain b where b: "supplied_field f st (validate_field K f v (fst st)) = Inr b"
      "validate_fields K fs inp b = Inr st'" by (auto split: sum.splits)
    with Cons have "map_of (fst st') n = map_of (fst b) n" by simp
    also have "\<dots> = map_of (fst st) n"
      using b(1) Cons.prems(2) by (auto simp: supplied_field_Inr map_add_def split: option.splits)
    finally show ?thesis .
  qed
qed

lemma validate_fields_fields_set:
  "validate_fields K fs inp st = Inr st' \<Longrightarrow>
     fst (snd st') = fst (snd st) @ filter (\<lambda>n. map_of inp n \<noteq> None) (map fname fs)"
proof (induction fs arbitrary: st)
  case Nil
  then show ?case by simp
next
  case (Cons f fs)
  show ?case
  proof (cases "map_of inp (fname f)")
    case None
    with Cons.prems have "validate_fields K fs inp (absent_field f st) = Inr st'" by simp
    from Cons.IH[OF this] None show ?thesis by (cases st) simp
  next
    case (Some v)
    with Cons.prems obtain b where b: "supplied_field f st (validate_field K f v (fst st)) = Inr b"
      "validate_fields K fs inp b = Inr st'" by (auto split: sum.splits)
    from Cons.IH[OF b(2)] b(1) Some show ?thesis by (auto simp: supplied_field_Inr)
  qed
qed

lemma validate_fields_missing:
  "validate_fields K fs inp st = Inr st' \<Longrightarrow> f \<in> set fs \<Longrightarrow> required f \<Longrightarrow>
     map_of inp (fname f) = None \<Longrightarrow> ([LName (fname f)], MissingError) \<in> set (snd (snd st'))"
proof (induction fs arbitrary: st)
  case Nil
  then show ?case by simp
next
  case (Cons g gs)
  show ?case
  proof (cases "f = g")
    case True
    with Cons.prems have r: "validate_fields K gs inp (absent_field g st) = Inr st'" by simp
    from errs_loc(4)[OF r] True Cons.prems(3) show ?thesis by (auto simp: absent_field_errs)
  next
    case False
    with Cons.prems have fin: "f \<in> set gs" by simp
    show ?thesis
    proof (cases "map_of inp (fname g)")
      case None
      with Cons.prems have "validate_fields K gs inp (absent_field g st) = Inr st'" by simp
      from Cons.IH[OF this fin Cons.prems(3,4)] show ?thesis .
    next
      case (Some v)
      with Cons.prems obtain b where b: "validate_fields K gs inp b = Inr st'"
        by (auto split: sum.splits)
      from Cons.IH[OF this fin Cons.prems(3,4)] show ?thesis .
    qed
  qed
qed

lemma errs_at_append [simp]: "errs_at n (es @ es') = errs_at n es @ errs_at n es'"
  by (simp add: errs_at_def)

lemma errs_at_Nil [simp]: "errs_at n [] = []"
  by (simp add: errs_at_def)

lemma errs_at_other: "errs_of_fields N es \<Longrightarrow> n \<notin> N \<Longrightarrow> errs_at n es = []"
  unfolding errs_at_def errs_of_fields_def list_all_iff
  by (auto simp: filter_empty_conv)

lemma errs_at_same: "errs_of_fields {n} es \<Longrightarrow> errs_at n es = es"
  unfolding errs_at_def errs_of_fields_def list_all_iff
  by (auto simp: filter_id_conv)

lemma field_errs_under: "errs_of_fields {fname f} (field_errs K f inp vals)"
proof (cases "map_of inp (fname f)")
  case None
  then show ?thesis by (simp add: field_errs_def errs_of_fields_def)
next
  case (Some v)
  show ?thesis
  proof (cases "validate_field K f v vals")
    case (Errs es)
    from errs_loc(3)[OF this] have "errs_of_fields {fname f} es" by (rule errs_under_field)
    with Some Errs show ?thesis by (simp add: field_errs_def)
  qed (simp_all add: field_errs_def Some)
qed

lemma validate_fields_single:
  assumes "validate_fields K [f] inp st = Inr st'"
  shows "snd (snd st') = snd (snd st) @ field_errs K f inp (fst st) \<and>
     (map_of (fst st) (fname f) = None \<longrightarrow> map_of (fst st') (fname f) = field_value K f inp (fst st))"
proof (cases "map_of inp (fname f)")
  case None
  with assms have "st' = absent_field f st" by simp
  with None show ?thesis
    by (cases st) (simp add: field_errs_def field_value_def map_add_def)
next
  case (Some v)
  with assms have s: "supplied_field f st (validate_field K f v (fst st)) = Inr st'"
    by (simp del: validate_field.simps split: sum.splits)
  then show ?thesis
    unfolding supplied_field_Inr
  proof (elim disjE exE conjE)
    fix w assume "validate_field K f v (fst st) = Ok w"
      "st' = (fst st @ [(fname f, w)], fst (snd st) @ [fname f], snd (snd st))"
    with Some show ?thesis by (simp add: field_errs_def field_value_def map_add_def)
  next
    fix es assume "validate_field K f v (fst st) = Errs es"
      "st' = (fst st, fst (snd st) @ [fname f], snd (snd st) @ es)"
    with Some show ?thesis by (simp add: field_errs_def field_value_def)
  qed
qed

lemma validate_fields_split:
  assumes "validate_fields K (pre @ f # post) inp st = Inr st'"
  obtains st1 st2 where "validate_fields K pre inp st = Inr st1"
    "validate_fields K [f] inp st1 = Inr st2" "validate_fields K post inp st2 = Inr st'"
proof -
  from assms have a: "validate_fields K (pre @ ([f] @ post)) inp st = Inr st'" by simp
  then obtain st1 where 1: "validate_fields K pre inp st = Inr st1"
    and r: "validate_fields K ([f] @ post) inp st1 = Inr st'"
    unfolding validate_fields_append[of K pre] by (auto split: sum.splits)
  from r obtain st2 where 2: "validate_fields K [f] inp st1 = Inr st2"
    and 3: "validate_fields K post inp st2 = Inr st'"
    unfolding validate_fields_append[of K "[f]"] by (auto split: sum.splits)
  from 1 2 3 show ?thesis by (rule that)
qed

lemma field_errors_at:
  assumes "validate_fields K (pre @ f # post) inp st = Inr st'"
    and "fname f \<notin> fname ` set pre" and "fname f \<notin> fname ` set post"
  shows "\<exists>st1. validate_fields K pre inp st = Inr st1 \<and>
           errs_at (fname f) (snd (snd st')) =
             errs_at (fname f) (snd (snd st)) @ field_errs K f inp (fst st1)"
proof -
  from assms(1) obtain st1 st2 where 1: "validate_fields K pre inp st = Inr st1"
    and 2: "validate_fields K [f] inp st1 = Inr st2"
    and 3: "validate_fields K post inp st2 = Inr st'"
    by (rule validate_fields_split)
  from errs_loc(4)[OF 1] obtain e1 where e1: "snd (snd st1) = snd (snd st) @ e1"
    "errs_of_fields (fname ` set pre) e1" by auto
  from errs_loc(4)[OF 3] obtain e3 where e3: "snd (snd st') = snd (snd st2) @ e3"
    "errs_of_fields (fname ` set post) e3" by auto
  from validate_fields_single[OF 2]
  have e2: "snd (snd st2) = snd (snd st1) @ field_errs K f inp (fst st1)" by simp
  have "errs_at (fname f) e1 = []" using e1(2) assms(2) by (rule errs_at_other)
  moreover have "errs_at (fname f) e3 = []" using e3(2) assms(3) by (rule errs_at_other)
  moreover have "errs_at (fname f) (field_errs K f inp (fst st1)) = field_errs K f inp (fst st1)"
    by (rule errs_at_same) (rule field_errs_under)
  ultimately show ?thesis using 1 e1 e2 e3 by simp
qed

lemma field_value_at:
  assumes "validate_fields K (pre @ f # post) inp st = Inr st'"
    and "fname f \<notin> fname ` set pre" and "fname f \<notin> fname ` set post"
    and "map_of (fst st) (fname f) = None"
  shows "\<exists>st1. validate_fields K pre inp st = Inr st1 \<and>
           map_of (fst st') (fname f) = field_value K f inp (fst st1)"
proof -
  from assms(1) obtain st1 st2 where 1: "validate_fields K pre inp st = Inr st1"
    and 2: "validate_fields K [f] inp st1 = Inr st2"
    and 3: "validate_fields K post inp st2 = Inr st'"
    by (rule validate_fields_split)
  have "map_of (fst st1) (fname f) = None"
    using validate_fields_values_other[OF 1 assms(2)] assms(4) by simp
  with validate_fields_single[OF 2]
  have "map_of (fst st2) (fname f) = field_value K f inp (fst st1)" by simp
  with validate_fields_values_other[OF 3 assms(3)] 1 show ?thesis by simp
qed

lemma apply_validators_no_raise: "apply_validators gs v vals loc \<noteq> Raise e"
  by (induction gs arbitrary: v) (auto split: sum.splits)

lemma lift_err_no_raise: "lift_err loc r \<noteq> Raise e"
  by (auto simp: lift_err_def split: sum.splits)

lemma items_no_raise:
  "(\<And>v loc e. validate_type K T v loc \<noteq> Raise e) \<Longrightarrow> validate_items K T xs i loc \<noteq> Inl e"
  by (induction xs arbitrary: i) (auto simp: add_item_Inl)

lemma plain_no_raise: "plain T \<Longrightarrow> validate_type K T v loc \<noteq> Raise e"
proof (induction T arbitrary: v loc e rule: plain.induct)
  case (1 T)
  then have "\<And>xs i loc e. validate_items K T xs i loc \<noteq> Inl e"
    by (intro items_no_raise) simp
  then show ?case by (cases v) (simp_all add: list_result_Raise)
qed (simp_all add: lift_err_no_raise)

lemma plain_field_no_raise: "plain (ftp f) \<Longrightarrow> validate_field K f v vals \<noteq> Raise e"
  using plain_no_raise[of "ftp f" K v "[LName (fname f)]"]
  by (cases "validate_type K (ftp f) v [LName (fname f)]")
     (simp_all add: validate_none_def apply_validators_no_raise)

lemma validate_field_no_validators:
  "post_validators f = [] \<Longrightarrow> validate_field K f v vals = validate_field K f v vals'"
  by (cases "validate_type K (ftp f) v [LName (fname f)]") (simp_all add: validate_none_def)

lemma req_sel [simp]:
  "fname (req n T) = n" "ftp (req n T) = T" "required (req n T)" "\<not> allow_none (req n T)"
  "post_validators (req n T) = []"
  by (simp_all add: req_def)

lemma opt_sel [simp]:
  "fname (opt n T) = n" "ftp (opt n T) = T" "\<not> required (opt n T)" "allow_none (opt n T)"
  "post_validators (opt n T) = []"
  by (simp_all add: opt_def)

lemma with_validator_sel [simp]:
  "fname (with_validator f g) = fname f" "ftp (with_validator f g) = ftp f"
  "required (with_validator f g) = required f" "allow_none (with_validator f g) = allow_none f"
  "post_validators (with_validator f g) = post_validators f @ [g]"
  by (simp_all add: with_validator_def)

lemma plain_fields_total:
  "(\<And>f. f \<in> set fs \<Longrightarrow> plain (ftp f)) \<Longrightarrow> \<exists>st'. validate_fields K fs inp st = Inr st'"
  by (rule validate_fields_total) (simp add: plain_field_no_raise del: validate_field.simps)

lemma UserCreate_plain: "f \<in> set UserCreate_fields \<Longrightarrow> plain (ftp f)"
  by (auto simp: UserCreate_fields_def mail_t_def simp del: validate_field.simps)

lemma UserUpdate_plain: "f \<in> set UserUpdate_fields \<Longrightarrow> plain (ftp f)"
  by (auto simp: UserUpdate_fields_def mail_t_def)

lemma native_None: "native T VNone \<Longrightarrow> T = TAny"
  by (cases T) simp_all

lemma native_items_validate:
  "(\<And>x loc. x \<in> set xs \<Longrightarrow> native T x \<Longrightarrow> x \<noteq> VNone \<Longrightarrow> validate_type K T x loc = Ok x)
   \<Longrightarrow> native_items T xs \<Longrightarrow> validate_items K T xs i loc = Inr (xs, [])"
proof (induction xs arbitrary: i)
  case Nil
  then show ?case by simp
next
  case (Cons x xs)
  then have r: "validate_items K T xs (Suc i) loc = Inr (xs, [])" by simp
  show ?case
  proof (cases "x = VNone")
    case True
    with Cons.prems(2) have "T = TAny" by (simp add: native_None)
    with True r show ?thesis by simp
  next
    case False
    with Cons.prems have "validate_type K T x (loc @ [LIdx i]) = Ok x" by simp
    with False r show ?thesis by simp
  qed
qed

lemma native_validate:
  "native T v \<Longrightarrow> v \<noteq> VNone \<Longrightarrow> validate_type K T v loc = Ok v"
proof (induction T arbitrary: v loc rule: plain.induct)
  case (1 T)
  from "1.prems" obtain xs where v: "v = VList xs" and n: "native_items T xs"
    by (cases v) simp_all
  have "validate_items K T xs 0 loc = Inr (xs, [])"
    using "1.IH" n by (intro native_items_validate) simp_all
  with v show ?case by simp
next
  case (2 cls fs m)
  then show ?case by (cases v) (simp_all add: model_source_def)
next
  case "3_1"
  then show ?case by simp
next
  case "3_2"
  then show ?case by (cases v) (simp_all add: lift_err_def int_validator_def)
next
  case "3_3"
  then show ?case by (cases v) (simp_all add: lift_err_def bool_validator_def)
next
  case "3_4"
  then show ?case
    by (cases v)
       (auto simp: lift_err_def confloat_validate_def float_validator_def number_size_validator_def
          split: option.splits)
next
  case "3_5"
  then show ?case
    by (cases v) (auto simp: lift_err_def constr_validate_def str_validator_def split: option.splits)
next
  case "3_6"
  then show ?case by (cases v) (simp_all add: lift_err_def parse_datetime_def)
qed

lemma native_items_any: "native_items TAny xs"
  by (induction xs) simp_all

lemma errs_not_at_append [simp]:
  "errs_not_at n (es @ es') = errs_not_at n es @ errs_not_at n es'"
  by (simp add: errs_not_at_def)

lemma errs_not_at_Nil [simp]: "errs_not_at n [] = []"
  by (simp add: errs_not_at_def)

lemma errs_not_at_other: "errs_of_fields {m} es \<Longrightarrow> m \<noteq> n \<Longrightarrow> errs_not_at n es = es"
  unfolding errs_not_at_def errs_of_fields_def list_all_iff
  by (auto simp: filter_id_conv)

lemma errs_not_at_same: "errs_of_fields {n} es \<Longrightarrow> errs_not_at n es = []"
  unfolding errs_not_at_def errs_of_fields_def list_all_iff
  by (auto simp: filter_empty_conv)

lemma step_errs:
  assumes "validate_fields K [f] inp st = Inr st'"
  shows "\<exists>es. snd (snd st') = snd (snd st) @ es \<and> errs_of_fields {fname f} es"
  using validate_fields_single[OF assms] field_errs_under[of f K inp "fst st"] by blast

lemma step_values:
  assumes "validate_fields K [f] inp st = Inr st'"
  shows "\<exists>w. fst st' = fst st \<or> fst st' = fst st @ [(fname f, w)]"
proof (cases "map_of inp (fname f)")
  case None
  with assms show ?thesis by (cases st) (auto split: if_splits)
next
  case (Some v)
  with assms have "supplied_field f st (validate_field K f v (fst st)) = Inr st'"
    by (simp del: validate_field.simps split: sum.splits)
  then show ?thesis unfolding supplied_field_Inr by auto
qed


lemma omit_step:
  assumes run: "validate_fields K [f] inp st1 = Inr st1'"
    and opt: "fname f = n \<Longrightarrow> \<not> required f"
    and ind: "\<And>v. fname f \<noteq> n \<Longrightarrow> validate_field K f v (fst st2) = validate_field K f v (fst st1)"
    and vals: "\<forall>k. k \<noteq> n \<longrightarrow> map_of (fst st2) k = map_of (fst st1) k"
    and errs: "snd (snd st2) = errs_not_at n (snd (snd st1))"
  shows "\<exists>st2'. validate_fields K [f] (omit n inp) st2 = Inr st2' \<and>
           (\<forall>k. k \<noteq> n \<longrightarrow> map_of (fst st2') k = map_of (fst st1') k) \<and>
           snd (snd st2') = errs_not_at n (snd (snd st1'))"
proof (cases "fname f = n")
  case True
  from step_errs[OF run] obtain es where es: "snd (snd st1') = snd (snd st1) @ es"
    "errs_of_fields {fname f} es" by blast
  from step_values[OF run] obtain w where w: "fst st1' = fst st1 \<or> fst st1' = fst st1 @ [(fname f, w)]"
    by blast
  let ?st2' = "(fst st2 @ [(n, VNone)], fst (snd st2), snd (snd st2))"
  have 1: "validate_fields K [f] (omit n inp) st2 = Inr ?st2'"
    using True opt by (cases st2) simp
  have 2: "\<forall>k. k \<noteq> n \<longrightarrow> map_of (fst ?st2') k = map_of (fst st1') k"
    using w vals True by (auto simp: map_add_def split: option.splits)
  have 3: "snd (snd ?st2') = errs_not_at n (snd (snd st1'))"
    using es True errs by (simp add: errs_not_at_same)
  from 1 2 3 show ?thesis by blast
next
  case False
  note neq = False
  have lk: "map_of (omit n inp) (fname f) = map_of inp (fname f)" using neq by simp
  show ?thesis
  proof (cases "map_of inp (fname f)")
    case None
    with run have s1: "st1' = absent_field f st1" by simp
    have 1: "validate_fields K [f] (omit n inp) st2 = Inr (absent_field f st2)"
      using None lk by simp
    have 2: "\<forall>k. k \<noteq> n \<longrightarrow> map_of (fst (absent_field f st2)) k = map_of (fst st1') k"
      using vals unfolding s1 by (cases st1; cases st2) (auto simp: map_add_def)
    have "errs_not_at n [([LName (fname f)], MissingError)] = [([LName (fname f)], MissingError)]"
      using neq by (simp add: errs_not_at_def)
    then have 3: "snd (snd (absent_field f st2)) = errs_not_at n (snd (snd st1'))"
      using errs unfolding s1 by (cases st1; cases st2) auto
    from 1 2 3 show ?thesis by blast
  next
    case (Some v)
    with run have s: "supplied_field f st1 (validate_field K f v (fst st1)) = Inr st1'"
      by (simp del: validate_field.simps split: sum.splits)
    have eq: "validate_field K f v (fst st2) = validate_field K f v (fst st1)"
      using ind[OF neq] .
    from s show ?thesis unfolding supplied_field_Inr
    proof (elim disjE exE conjE)
      fix w assume ok: "validate_field K f v (fst st1) = Ok w"
        and s1: "st1' = (fst st1 @ [(fname f, w)], fst (snd st1) @ [fname f], snd (snd st1))"
      let ?st2' = "(fst st2 @ [(fname f, w)], fst (snd st2) @ [fname f], snd (snd st2))"
      have 1: "validate_fields K [f] (omit n inp) st2 = Inr ?st2'"
        using Some lk eq ok by (cases st2) (simp del: validate_field.simps)
      have 2: "\<forall>k. k \<noteq> n \<longrightarrow> map_of (fst ?st2') k = map_of (fst st1') k"
        using vals unfolding s1 by (auto simp: map_add_def)
      have 3: "snd (snd ?st2') = errs_not_at n (snd (snd st1'))"
        using errs unfolding s1 by simp
      from 1 2 3 show ?thesis by blast
    next
      fix es assume er: "validate_field K f v (fst st1) = Errs es"
        and s1: "st1' = (fst st1, fst (snd st1) @ [fname f], snd (snd st1) @ es)"
      let ?st2' = "(fst st2, fst (snd st2) @ [fname f], snd (snd st2) @ es)"
      have 1: "validate_fields K [f] (omit n inp) st2 = Inr ?st2'"
        using Some lk eq er by (cases st2) (simp del: validate_field.simps)
      have 2: "\<forall>k. k \<noteq> n \<longrightarrow> map_of (fst ?st2') k = map_of (fst st1') k"
        using vals unfolding s1 by simp
      from errs_loc(3)[OF er] have "errs_of_fields {fname f} es" by (rule errs_under_field)
      then have "errs_not_at n es = es" using neq by (rule errs_not_at_other)
      then have 3: "snd (snd ?st2') = errs_not_at n (snd (snd st1'))"
        using errs unfolding s1 by simp
      from 1 2 3 show ?thesis by blast
    qed
  qed
qed


lemma omit_run:
  assumes "validate_fields K fs inp st1 = Inr st1'"
    and "\<And>f. f \<in> set fs \<Longrightarrow> fname f = n \<Longrightarrow> \<not> required f"
    and "\<And>f v vals vals'. f \<in> set fs \<Longrightarrow> fname f \<noteq> n \<Longrightarrow>
           \<forall>k. k \<noteq> n \<longrightarrow> map_of vals k = map_of vals' k \<Longrightarrow>
           validate_field K f v vals = validate_field K f v vals'"
    and "\<forall>k. k \<noteq> n \<longrightarrow> map_of (fst st2) k = map_of (fst st1) k"
    and "snd (snd st2) = errs_not_at n (snd (snd st1))"
  shows "\<exists>st2'. validate_fields K fs (omit n inp) st2 = Inr st2' \<and>
           (\<forall>k. k \<noteq> n \<longrightarrow> map_of (fst st2') k = map_of (fst st1') k) \<and>
           snd (snd st2') = errs_not_at n (snd (snd st1'))"
  using assms
proof (induction fs arbitrary: st1 st2)
  case Nil
  then show ?case by simp
next
  case (Cons f fs)
  from Cons.prems(1) have "validate_fields K ([f] @ fs) inp st1 = Inr st1'" by simp
  then obtain s1 where a: "validate_fields K [f] inp st1 = Inr s1"
    and b: "validate_fields K fs inp s1 = Inr st1'"
    unfolding validate_fields_append[of K "[f]"] by (auto split: sum.splits)
  have "\<exists>s2. validate_fields K [f] (omit n inp) st2 = Inr s2 \<and>
           (\<forall>k. k \<noteq> n \<longrightarrow> map_of (fst s2) k = map_of (fst s1) k) \<and>
           snd (snd s2) = errs_not_at n (snd (snd s1))"
  proof (rule omit_step[OF a])
    show "fname f = n \<Longrightarrow> \<not> required f" using Cons.prems(2)[of f] by simp
    show "\<And>v. fname f \<noteq> n \<Longrightarrow> validate_field K f v (fst st2) = validate_field K f v (fst st1)"
      by (rule Cons.prems(3)) (use Cons.prems(4) in simp_all)
    show "\<forall>k. k \<noteq> n \<longrightarrow> map_of (fst st2) k = map_of (fst st1) k" by (rule Cons.prems(4))
    show "snd (snd st2) = errs_not_at n (snd (snd st1))" by (rule Cons.prems(5))
  qed
  then obtain s2 where c: "validate_fields K [f] (omit n inp) st2 = Inr s2"
    and d: "\<forall>k. k \<noteq> n \<longrightarrow> map_of (fst s2) k = map_of (fst s1) k"
    and e: "snd (snd s2) = errs_not_at n (snd (snd s1))" by blast
  have "\<exists>st2'. validate_fields K fs (omit n inp) s2 = Inr st2' \<and>
           (\<forall>k. k \<noteq> n \<longrightarrow> map_of (fst st2') k = map_of (fst st1') k) \<and>
           snd (snd st2') = errs_not_at n (snd (snd st1'))"
  proof (rule Cons.IH[OF b _ _ d e])
    show "\<And>g. g \<in> set fs \<Longrightarrow> fname g = n \<Longrightarrow> \<not> required g" using Cons.prems(2) by simp
    show "\<And>g v vals vals'. g \<in> set fs \<Longrightarrow> fname g \<noteq> n \<Longrightarrow>
           \<forall>k. k \<noteq> n \<longrightarrow> map_of vals k = map_of vals' k \<Longrightarrow>
           validate_field K g v vals = validate_field K g v vals'"
      using Cons.prems(3) by simp
  qed
  then obtain st2' where f: "validate_fields K fs (omit n inp) s2 = Inr st2'"
    and g: "\<forall>k. k \<noteq> n \<longrightarrow> map_of (fst st2') k = map_of (fst st1') k"
    and h: "snd (snd st2') = errs_not_at n (snd (snd st1'))" by blast
  have "validate_fields K ([f] @ fs) (omit n inp) st2 = Inr st2'"
    unfolding validate_fields_append[of K "[f]"] using c f by simp
  then have "validate_fields K (f # fs) (omit n inp) st2 = Inr st2'" by simp
  with g h show ?case by blast
qed

lemma omit_valid:
  assumes "construct K cls fs inp = Inr m"
    and "\<And>f. f \<in> set fs \<Longrightarrow> fname f = n \<Longrightarrow> \<not> required f"
    and "\<And>f v vals vals'. f \<in> set fs \<Longrightarrow> fname f \<noteq> n \<Longrightarrow>
           \<forall>k. k \<noteq> n \<longrightarrow> map_of vals k = map_of vals' k \<Longrightarrow>
           validate_field K f v vals = validate_field K f v vals'"
  shows "\<exists>m'. construct K cls fs (omit n inp) = Inr m'"
proof -
  from assms(1) obtain vals fset where r: "validate_fields K fs inp ([], [], []) = Inr (vals, fset, [])"
    by (auto simp: construct_def validate_model_def split: sum.splits if_splits)
  have "\<exists>st2'. validate_fields K fs (omit n inp) ([], [], []) = Inr st2' \<and>
           (\<forall>k. k \<noteq> n \<longrightarrow> map_of (fst st2') k = map_of (fst (vals, fset, [] :: errs)) k) \<and>
           snd (snd st2') = errs_not_at n (snd (snd (vals, fset, [] :: errs)))"
  proof (rule omit_run[OF r])
    show "\<And>f. f \<in> set fs \<Longrightarrow> fname f = n \<Longrightarrow> \<not> required f" by (rule assms(2))
    show "\<And>f v vals vals'. f \<in> set fs \<Longrightarrow> fname f \<noteq> n \<Longrightarrow>
           \<forall>k. k \<noteq> n \<longrightarrow> map_of vals k = map_of vals' k \<Longrightarrow>
           validate_field K f v vals = validate_field K f v vals'" by (rule assms(3))
  qed simp_all
  then obtain st2' where "validate_fields K fs (omit n inp) ([], [], []) = Inr st2'"
    "snd (snd st2') = []" by auto
  then show ?thesis by (cases st2') (simp add: construct_def validate_model_def)
qed

lemma omitted_field_errors:
  assumes "validate_fields K fs inp st = Inr st'" and "distinct (map fname fs)" and "f \<in> set fs"
  shows "\<exists>vals1. errs_at (fname f) (snd (snd st')) =
                   errs_at (fname f) (snd (snd st)) @ field_errs K f inp vals1"
proof -
  from assms(3) obtain pre post where fs: "fs = pre @ f # post" by (meson split_list)
  with assms(2) have "fname f \<notin> fname ` set pre" "fname f \<notin> fname ` set post" by auto
  from field_errors_at[OF assms(1)[unfolded fs] this] show ?thesis by blast
qed

section \<open>The mail regex\<close>





section \<open>Projections\<close>

lemma getattr_error: "getattr obj a = Inl e \<Longrightarrow> e = AttributeError a"
  by (auto simp: getattr_def split: option.splits)

lemma attr_path_error: "attr_path obj p = Inl e \<Longrightarrow> \<exists>a. e = AttributeError a"
  by (induction p arbitrary: obj) (auto split: sum.splits dest: getattr_error)

lemma read_kwargs_error: "read_kwargs obj kw = Inl e \<Longrightarrow> \<exists>a. e = AttributeError a"
  by (induction kw) (auto split: sum.splits dest: attr_path_error)

lemma read_kwargs_fails:
  "(k, p) \<in> set kw \<Longrightarrow> attr_path obj p = Inl e \<Longrightarrow> \<exists>e'. read_kwargs obj kw = Inl e'"
  by (induction kw) (auto split: sum.splits)

lemma none_has_no_attribute: "getattr VNone a = Inl (AttributeError a)"
  by (simp add: getattr_def)

text \<open>
  Claim C4. Projecting a source object whose related ore object is \<^verbatim>\<open>None\<close> with
  \<^verbatim>\<open>StationOreEfficiency.from_orm\<close> or \<^verbatim>\<open>MethodOreEfficiency.from_orm\<close> fails: reading
  \<^verbatim>\<open>obj.ore.name\<close> raises \<^verbatim>\<open>AttributeError\<close>, nothing catches it, and no structure with a
  defaulted \<^verbatim>\<open>ore_name\<close> is produced.
\<close>

theorem ore_projection_fails:
  assumes "getattr obj ''ore'' = Inr VNone"
  shows "(\<exists>a. StationOreEfficiency_from_orm K obj = Inl (AttributeError a)) \<and>
         (\<exists>a. MethodOreEfficiency_from_orm K obj = Inl (AttributeError a))"
proof -
  have p: "attr_path obj [''ore'', ''name''] = Inl (AttributeError ''name'')"
    using assms by (simp add: none_has_no_attribute)
  have "(''ore_name'', [''ore'', ''name'']) \<in> set StationOreEfficiency_kwargs"
    by (simp add: StationOreEfficiency_kwargs_def)
  from read_kwargs_fails[OF this p] obtain e1 where
    e1: "read_kwargs obj StationOreEfficiency_kwargs = Inl e1" by blast
  have "(''ore_name'', [''ore'', ''name'']) \<in> set MethodOreEfficiency_kwargs"
    by (simp add: MethodOreEfficiency_kwargs_def)
  from read_kwargs_fails[OF this p] obtain e2 where
    e2: "read_kwargs obj MethodOreEfficiency_kwargs = Inl e2" by blast
  from read_kwargs_error[OF e1] read_kwargs_error[OF e2] e1 e2 show ?thesis
    by (auto simp: StationOreEfficiency_from_orm_def MethodOreEfficiency_from_orm_def
        custom_from_orm_def)
qed

theorem ore_projection_fails_witness:
  "getattr (VObj [(''efficiency_bonus'', VFloat (Fin 2)), (''ore_id'', VInt 7), (''ore'', VNone)])
     ''ore'' = Inr VNone \<and>
   StationOreEfficiency_from_orm no_coercion
     (VObj [(''efficiency_bonus'', VFloat (Fin 2)), (''ore_id'', VInt 7), (''ore'', VNone)])
     = Inl (AttributeError ''name'')"
proof -
  let ?obj = "VObj [(''efficiency_bonus'', VFloat (Fin 2)), (''ore_id'', VInt 7), (''ore'', VNone)]"
  have h: "getattr ?obj ''ore'' = Inr VNone" by (simp add: getattr_def)
  from ore_projection_fails[OF h, of no_coercion] have "\<exists>a. StationOreEfficiency_from_orm no_coercion ?obj = Inl (AttributeError a)" by blast
  moreover have "StationOreEfficiency_from_orm no_coercion ?obj = Inl (AttributeError ''name'')"
    by (simp add: StationOreEfficiency_from_orm_def custom_from_orm_def
        StationOreEfficiency_kwargs_def getattr_def)
  ultimately show ?thesis using h by simp
qed

text \<open>
  Claim C7. For every source object with resolved \<^verbatim>\<open>.user\<close> and \<^verbatim>\<open>.friend\<close> relations (and
  attributes of the declared types), \<^verbatim>\<open>Friendship.from_orm\<close> sets \<^verbatim>\<open>user_name\<close> to the
  \<^verbatim>\<open>.name\<close> of the related user and \<^verbatim>\<open>friend_name\<close> to the \<^verbatim>\<open>.name\<close> of the related
  friend, whatever other attributes the source object has, and copies \<^verbatim>\<open>user_id\<close>,
  \<^verbatim>\<open>friend_id\<close>, \<^verbatim>\<open>created\<close> and \<^verbatim>\<open>confirmed\<close>.
\<close>

theorem Friendship_projection:
  assumes "getattr obj ''user_id'' = Inr (VInt a)"
    and "getattr obj ''user'' = Inr u" and "getattr u ''name'' = Inr (VStr un)"
    and "getattr obj ''friend_id'' = Inr (VInt b)"
    and "getattr obj ''friend'' = Inr fr" and "getattr fr ''name'' = Inr (VStr fn)"
    and "getattr obj ''created'' = Inr (VDatetime t)"
    and "getattr obj ''confirmed'' = Inr cf" and "cf = VNone \<or> (\<exists>d. cf = VDatetime d)"
  shows "Friendship_from_orm K obj =
           Inr (VModel ''Friendship''
                  [(''user_id'', VInt a), (''user_name'', VStr un),
                   (''friend_id'', VInt b), (''friend_name'', VStr fn),
                   (''created'', VDatetime t), (''confirmed'', cf)]
                  [''user_id'', ''user_name'', ''friend_id'', ''friend_name'',
                   ''created'', ''confirmed''])"
proof -
  have kw: "read_kwargs obj Friendship_kwargs =
      Inr [(''user_id'', VInt a), (''user_name'', VStr un), (''friend_id'', VInt b),
           (''friend_name'', VStr fn), (''created'', VDatetime t), (''confirmed'', cf)]"
    using assms by (simp add: Friendship_kwargs_def)
  from assms(9) show ?thesis
    unfolding Friendship_from_orm_def custom_from_orm_def kw
    by (auto simp: construct_def validate_model_def Friendship_fields_def lift_err_def
        int_validator_def constr_validate_def str_validator_def parse_datetime_def
        validate_none_def)
qed


theorem Friendship_projection_witness:
  "Friendship_from_orm no_coercion
     (VObj [(''user_id'', VInt 1), (''user_name'', VStr ''stale''),
            (''user'', VObj [(''id'', VInt 1), (''name'', VStr ''Alice'')]),
            (''friend_id'', VInt 2), (''friend_name'', VStr ''old''),
            (''friend'', VObj [(''id'', VInt 2), (''name'', VStr ''Bob'')]),
            (''created'', VDatetime 1000), (''confirmed'', VNone)]) =
   Inr (VModel ''Friendship''
          [(''user_id'', VInt 1), (''user_name'', VStr ''Alice''),
           (''friend_id'', VInt 2), (''friend_name'', VStr ''Bob''),
           (''created'', VDatetime 1000), (''confirmed'', VNone)]
          [''user_id'', ''user_name'', ''friend_id'', ''friend_name'', ''created'', ''confirmed''])"
  using Friendship_projection[of
     "VObj [(''user_id'', VInt 1), (''user_name'', VStr ''stale''),
            (''user'', VObj [(''id'', VInt 1), (''name'', VStr ''Alice'')]),
            (''friend_id'', VInt 2), (''friend_name'', VStr ''old''),
            (''friend'', VObj [(''id'', VInt 2), (''name'', VStr ''Bob'')]),
            (''created'', VDatetime 1000), (''confirmed'', VNone)]"
     1 "VObj [(''id'', VInt 1), (''name'', VStr ''Alice'')]" "''Alice''" 2
     "VObj [(''id'', VInt 2), (''name'', VStr ''Bob'')]" "''Bob''" 1000 VNone no_coercion]
  by (simp add: getattr_def)

section \<open>Facts about the user schemas\<close>

lemma user_fields_req: "UserCreate_fields = user_fields req"
  by (simp add: UserCreate_fields_def user_fields_def)

lemma user_fields_opt: "UserUpdate_fields = user_fields opt"
  by (simp add: UserUpdate_fields_def user_fields_def)

lemma mk_sel:
  assumes "mk = req \<or> mk = opt"
  shows "fname (mk n T) = n" "ftp (mk n T) = T" "post_validators (mk n T) = []"
    "required (mk n T) = (mk = req)" "allow_none (mk n T) = (mk = opt)"
  using assms by (auto simp: req_def opt_def fun_eq_iff)

lemma user_fields_total:
  assumes "mk = req \<or> mk = opt"
  shows "\<exists>st'. validate_fields K (user_fields mk) inp st = Inr st'"
proof (rule plain_fields_total)
  fix f assume "f \<in> set (user_fields mk)"
  then show "plain (ftp f)"
    using assms by (auto simp: user_fields_def mail_t_def mk_sel simp del: validate_field.simps)
qed

lemma field_errs_no_validators:
  "post_validators f = [] \<Longrightarrow> field_errs K f inp vals = field_errs K f inp []"
  unfolding field_errs_def using validate_field_no_validators[of f K _ vals "[]"]
  by (simp del: validate_field.simps split: option.splits)

lemma field_value_no_validators:
  "post_validators f = [] \<Longrightarrow> field_value K f inp vals = field_value K f inp []"
  unfolding field_value_def using validate_field_no_validators[of f K _ vals "[]"]
  by (simp del: validate_field.simps split: option.splits)

lemma user_fields_errors:
  assumes mk: "mk = req \<or> mk = opt"
  shows "\<exists>vals fset es vals1.
           validate_model K (user_fields mk) inp = Inr (vals, fset, es) \<and>
           errs_at ''mail'' es = field_errs K (mk ''mail'' mail_t) inp [] \<and>
           errs_at ''password'' es = field_errs K (mk ''password'' (constr 250)) inp [] \<and>
           errs_at ''password_confirm'' es =
             field_errs K (with_validator (mk ''password_confirm'' (constr 250)) passwords_match)
               inp vals1 \<and>
           map_of vals1 ''password'' = field_value K (mk ''password'' (constr 250)) inp []"
proof -
  let ?name = "mk ''name'' (constr 50)" and ?mail = "mk ''mail'' mail_t"
  let ?pw = "mk ''password'' (constr 250)"
  let ?cf = "with_validator (mk ''password_confirm'' (constr 250)) passwords_match"
  let ?rest = "[mk ''is_google'' TBool, mk ''is_active'' TBool, opt ''scopes'' (TList (constr 50))]"
  note sel = mk_sel[OF mk]
  obtain st' where st: "validate_fields K (user_fields mk) inp ([], [], []) = Inr st'"
    using user_fields_total[OF mk] by blast
  have d1: "user_fields mk = [?name] @ ?mail # (?pw # ?cf # ?rest)"
    and d2: "user_fields mk = [?name, ?mail] @ ?pw # (?cf # ?rest)"
    and d3: "user_fields mk = [?name, ?mail, ?pw] @ ?cf # ?rest"
    by (simp_all add: user_fields_def)
  from field_errors_at[OF st[unfolded d1]]
  obtain s1 where "errs_at (fname ?mail) (snd (snd st')) = field_errs K ?mail inp (fst s1)"
    by (auto simp: sel)
  then have m: "errs_at ''mail'' (snd (snd st')) = field_errs K ?mail inp []"
    using field_errs_no_validators[of ?mail K inp "fst s1"] by (simp add: sel)
  from field_errors_at[OF st[unfolded d2]]
  obtain s2 where "errs_at (fname ?pw) (snd (snd st')) = field_errs K ?pw inp (fst s2)"
    by (auto simp: sel)
  then have p: "errs_at ''password'' (snd (snd st')) = field_errs K ?pw inp []"
    using field_errs_no_validators[of ?pw K inp "fst s2"] by (simp add: sel)
  from field_errors_at[OF st[unfolded d3]]
  obtain s3 where s3: "validate_fields K [?name, ?mail, ?pw] inp ([], [], []) = Inr s3"
    and c: "errs_at (fname ?cf) (snd (snd st')) = field_errs K ?cf inp (fst s3)"
    by (auto simp: sel)
  have d4: "[?name, ?mail, ?pw] = [?name, ?mail] @ ?pw # []" by simp
  from field_value_at[OF s3[unfolded d4]]
  obtain s4 where "map_of (fst s3) (fname ?pw) = field_value K ?pw inp (fst s4)"
    by (auto simp: sel)
  then have v: "map_of (fst s3) ''password'' = field_value K ?pw inp []"
    using field_value_no_validators[of ?pw K inp "fst s4"] by (simp add: sel)
  from st m p c v show ?thesis
    by (cases st') (auto simp: validate_model_def sel)
qed

lemma own_check:
  assumes "mk = req \<or> mk = opt" and "v \<noteq> VNone"
  shows "validate_field K (mk n (TStr ml rx)) v vals = lift_err [LName n] (constr_validate K ml rx v)"
  using assms by (cases "constr_validate K ml rx v") (auto simp: req_def opt_def lift_err_def)

lemma own_check_none:
  "validate_field K (req n T) VNone vals = Errs [([LName n], NoneIsNotAllowedError)]"
  "validate_field K (opt n T) VNone vals = Ok VNone"
  by (simp_all add: validate_none_def)

lemma constr_validate_errors:
  "constr_validate K ml rx v = Inl e \<Longrightarrow> e = StrError \<or> (\<exists>n. e = AnyStrMaxLengthError n) \<or> e = StrRegexError"
  by (auto simp: constr_validate_def str_validator_def
      split: sum.splits option.splits if_splits pyval.splits)

lemma own_errors_not_mismatch:
  assumes "mk = req \<or> mk = opt" and "validate_field K (mk n (TStr ml rx)) v vals = Errs es"
  shows "mismatch \<notin> set es"
proof (cases "v = VNone")
  case True
  with assms show ?thesis by (auto simp: validate_none_def mismatch_def)
next
  case False
  from assms(2) show ?thesis
    unfolding own_check[OF assms(1) False]
    by (auto simp: lift_err_def mismatch_def split: sum.splits dest: constr_validate_errors)
qed

lemma confirm_field:
  assumes "mk = req \<or> mk = opt"
  shows "validate_field K (with_validator (mk ''password_confirm'' (constr 250)) passwords_match) c vals =
     (case validate_field K (mk ''password_confirm'' (constr 250)) c [] of
        Ok c' \<Rightarrow> if map_of vals ''password'' \<noteq> None \<and> Some c' \<noteq> map_of vals ''password''
                  then Errs [mismatch] else Ok c'
      | r \<Rightarrow> r)"
proof (cases "c = VNone")
  case True
  with assms show ?thesis
    by (auto simp: validate_none_def passwords_match_def mismatch_def)
next
  case False
  show ?thesis
    unfolding own_check[OF assms False]
    using assms False
    by (cases "constr_validate K (Some 250) None c")
       (auto simp: lift_err_def passwords_match_def mismatch_def req_def opt_def with_validator_def)
qed

lemma mismatch_at: "mismatch \<in> set es \<longleftrightarrow> mismatch \<in> set (errs_at ''password_confirm'' es)"
  by (auto simp: errs_at_def mismatch_def)

lemma user_schema_cases:
  assumes "fs = UserCreate_fields \<or> fs = UserUpdate_fields"
  obtains mk where "mk = req \<or> mk = opt" "fs = user_fields mk" "fs = UserCreate_fields \<Longrightarrow> mk = req"
proof (rule disjE[OF assms])
  assume "fs = UserCreate_fields"
  then show ?thesis using that[of req] by (simp add: user_fields_req)
next
  assume u: "fs = UserUpdate_fields"
  have "UserUpdate_fields \<noteq> UserCreate_fields"
    by (simp add: UserUpdate_fields_def UserCreate_fields_def req_def opt_def)
  with u show ?thesis using that[of opt] by (simp add: user_fields_opt)
qed

lemma confloat_field_errs:
  assumes "map_of inp n = Some v" and "v \<noteq> VNone" and "float_validator K v = Inr x"
  shows "field_errs K (req n (TFloat gt le)) inp vals = [] \<longleftrightarrow>
           (case gt of Some g \<Rightarrow> float_gt x g | None \<Rightarrow> True) \<and>
           (case le of Some l \<Rightarrow> float_le x l | None \<Rightarrow> True)"
  using assms
  by (simp add: field_errs_def lift_err_def confloat_validate_def number_size_validator_def
      split: option.splits)

section \<open>Facts about the Update schemas\<close>

lemma update_schema_disj:
  assumes "(cls, fs) \<in> set update_schemas"
  shows "(cls = ''UserUpdate'' \<and> fs = UserUpdate_fields) \<or>
      (cls = ''OreUpdate'' \<and> fs = OreUpdate_fields) \<or>
      (cls = ''StationUpdate'' \<and> fs = StationUpdate_fields) \<or>
      (cls = ''MethodUpdate'' \<and> fs = MethodUpdate_fields) \<or>
      (cls = ''MiningSessionUpdate'' \<and> fs = MiningSessionUpdate_fields) \<or>
      (cls = ''FriendshipUpdate'' \<and> fs = FriendshipUpdate_fields)"
proof -
  from assms have "(cls, fs) \<in> set 
     [(''UserUpdate'', UserUpdate_fields),
      (''OreUpdate'', OreUpdate_fields),
      (''StationUpdate'', StationUpdate_fields),
      (''MethodUpdate'', MethodUpdate_fields),
      (''MiningSessionUpdate'', MiningSessionUpdate_fields),
      (''FriendshipUpdate'', FriendshipUpdate_fields)]"
    unfolding update_schemas_def by assumption
  then show ?thesis
    by (simp only: list.set insert_iff empty_iff prod.inject simp_thms)
qed

lemmas update_defs = UserUpdate_fields_def OreUpdate_fields_def StationUpdate_fields_def
  MethodUpdate_fields_def MiningSessionUpdate_fields_def FriendshipUpdate_fields_def

lemma update_distinct:
  assumes "(cls, fs) \<in> set update_schemas"
  shows "distinct (map fname fs)"
  using update_schema_disj[OF assms]
  by (elim disjE conjE) (simp_all add: update_defs)

lemma update_not_required:
  assumes "(cls, fs) \<in> set update_schemas" and "f \<in> set fs"
    and "\<not> (cls = ''FriendshipUpdate'' \<and> fname f \<in> {''user_id'', ''friend_id''})"
  shows "\<not> required f"
  using update_schema_disj[OF assms(1)] assms(2,3)
  by (elim disjE conjE) (auto simp: update_defs simp del: validate_field.simps)

lemma update_validators:
  assumes "(cls, fs) \<in> set update_schemas" and "f \<in> set fs"
  shows "post_validators f = [] \<or>
         (cls = ''UserUpdate'' \<and>
          f = with_validator (opt ''password_confirm'' (constr 250)) passwords_match)"
  using update_schema_disj[OF assms(1)] assms(2)
  by (elim disjE conjE) (auto simp: update_defs simp del: validate_field.simps)

lemma update_independent:
  assumes "(cls, fs) \<in> set update_schemas" and "f \<in> set fs"
    and "\<not> (cls = ''UserUpdate'' \<and> n = ''password'')"
    and "\<forall>k. k \<noteq> n \<longrightarrow> map_of vals k = map_of vals' k"
  shows "validate_field K f v vals = validate_field K f v vals'"
  using update_validators[OF assms(1,2)]
proof
  assume "post_validators f = []"
  then show ?thesis by (rule validate_field_no_validators)
next
  assume a: "cls = ''UserUpdate'' \<and>
      f = with_validator (opt ''password_confirm'' (constr 250)) passwords_match"
  with assms(3) have "n \<noteq> ''password''" by simp
  with assms(4) have "map_of vals ''password'' = map_of vals' ''password''" by simp
  moreover from a have "f = with_validator (opt ''password_confirm'' (constr 250)) passwords_match"
    by simp
  ultimately show ?thesis
    by (simp only: confirm_field[OF disjI2[OF refl]])
qed

lemma apply_validators_errs_nonempty:
  "apply_validators gs v vals loc = Errs es \<Longrightarrow> es \<noteq> []"
  by (induction gs arbitrary: v) (auto split: sum.splits)

lemma passwords_match_keeps: "passwords_match v vals = Inr w \<Longrightarrow> w = v"
  by (simp add: passwords_match_def split: if_splits)

lemma update_validators_keep:
  assumes "(cls, fs) \<in> set update_schemas" and "f \<in> set fs"
    and "apply_validators (post_validators f) v vals loc = Ok w"
  shows "w = v"
  using update_validators[OF assms(1,2)]
proof
  assume "post_validators f = []"
  with assms(3) show ?thesis by simp
next
  assume "cls = ''UserUpdate'' \<and>
      f = with_validator (opt ''password_confirm'' (constr 250)) passwords_match"
  then have "post_validators f = [passwords_match]" by simp
  with assms(3) show ?thesis by (auto split: sum.splits dest: passwords_match_keeps)
qed

lemma field_outcome:
  assumes "validate_fields K fs inp ([], [], []) = Inr (vals, fset, es)"
    and "distinct (map fname fs)" and "f \<in> set fs"
  shows "\<exists>vals1. errs_at (fname f) es = field_errs K f inp vals1 \<and>
                  map_of vals (fname f) = field_value K f inp vals1"
proof -
  from assms(3) obtain pre post where fs: "fs = pre @ f # post" by (meson split_list)
  with assms(2) have n: "fname f \<notin> fname ` set pre" "fname f \<notin> fname ` set post" by auto
  from field_errors_at[OF assms(1)[unfolded fs] n]
  obtain s1 where 1: "validate_fields K pre inp ([], [], []) = Inr s1"
    and e: "errs_at (fname f) es = field_errs K f inp (fst s1)" by auto
  from field_value_at[OF assms(1)[unfolded fs] n]
  obtain s2 where 2: "validate_fields K pre inp ([], [], []) = Inr s2"
    and v: "map_of vals (fname f) = field_value K f inp (fst s2)" by auto
  from 1 2 have "s1 = s2" by simp
  with e v show ?thesis by blast
qed

section \<open>User schemas\<close>

text \<open>
  Claim C9. In \<^verbatim>\<open>UserCreate\<close> the fields \<^verbatim>\<open>password\<close> and \<^verbatim>\<open>password_confirm\<close> are
  required: for every payload that omits one of them the constructor raises a
  \<^verbatim>\<open>ValidationError\<close> that contains a missing-field error located at that field.
\<close>

theorem UserCreate_passwords_required:
  assumes "n = ''password'' \<or> n = ''password_confirm''" and "map_of inp n = None"
  shows "\<exists>errors. construct K ''UserCreate'' UserCreate_fields inp
                     = Inl (ValidationError ''UserCreate'' errors) \<and>
                   ([LName n], MissingError) \<in> set errors"
proof -
  obtain st' where st: "validate_fields K UserCreate_fields inp ([], [], []) = Inr st'"
    using plain_fields_total[OF UserCreate_plain, of UserCreate_fields K inp "([], [], [])"]
    by auto
  have "\<exists>f. f \<in> set UserCreate_fields \<and> required f \<and> fname f = n"
  proof (rule disjE[OF assms(1)])
    assume "n = ''password''"
    then show ?thesis
      by (intro exI[of _ "req ''password'' (constr 250)"]) (simp add: UserCreate_fields_def)
  next
    assume "n = ''password_confirm''"
    then show ?thesis
      by (intro exI[of _ "with_validator (req ''password_confirm'' (constr 250)) passwords_match"])
         (simp add: UserCreate_fields_def)
  qed
  then obtain f where f: "f \<in> set UserCreate_fields" "required f" "fname f = n" by blast
  from validate_fields_missing[OF st f(1,2)] assms(2) f(3)
  have m: "([LName n], MissingError) \<in> set (snd (snd st'))" by simp
  then have "snd (snd st') \<noteq> []" by auto
  with st m show ?thesis
    by (cases st') (auto simp: construct_def validate_model_def)
qed

theorem UserCreate_passwords_required_witness:
  "map_of [(''name'', VStr ''bob''), (''mail'', VStr ''b@x''), (''password'', VStr ''pw''),
           (''is_google'', VBool False), (''is_active'', VBool True)] ''password_confirm'' = None \<and>
   (\<exists>errors. construct no_coercion ''UserCreate'' UserCreate_fields
       [(''name'', VStr ''bob''), (''mail'', VStr ''b@x''), (''password'', VStr ''pw''),
        (''is_google'', VBool False), (''is_active'', VBool True)]
       = Inl (ValidationError ''UserCreate'' errors) \<and>
     ([LName ''password_confirm''], MissingError) \<in> set errors)"
  using UserCreate_passwords_required[of "''password_confirm''"
      "[(''name'', VStr ''bob''), (''mail'', VStr ''b@x''), (''password'', VStr ''pw''),
        (''is_google'', VBool False), (''is_active'', VBool True)]" no_coercion]
  by simp




text \<open>
  Claim C10. In \<^verbatim>\<open>UserCreate\<close> and \<^verbatim>\<open>UserUpdate\<close>, when the supplied \<^verbatim>\<open>password\<close> is longer
  than 250 characters, the comparison of \<^verbatim>\<open>passwords_match\<close> is skipped: the errors contain
  no mismatch error, the \<^verbatim>\<open>password\<close> field has exactly its length error, and a
  \<^verbatim>\<open>password_confirm\<close> that passes its own length check has no error at all, whatever its
  value.
\<close>

theorem long_password_skips_comparison:
  assumes "fs = UserCreate_fields \<or> fs = UserUpdate_fields"
    and "map_of inp ''password'' = Some p" and "p \<noteq> VNone"
    and "str_validator K p = Inr s" and "length s > 250"
  shows "\<exists>vals fset es. validate_model K fs inp = Inr (vals, fset, es) \<and>
           mismatch \<notin> set es \<and>
           errs_at ''password'' es = [([LName ''password''], AnyStrMaxLengthError 250)] \<and>
           (\<forall>c c'. map_of inp ''password_confirm'' = Some c \<and> c \<noteq> VNone \<and>
                   constr_validate K (Some 250) None c = Inr c'
                   \<longrightarrow> errs_at ''password_confirm'' es = [])"
proof -
  from assms(1) obtain mk where mk: "mk = req \<or> mk = opt" and fs: "fs = user_fields mk"
    by (rule user_schema_cases)
  let ?cf = "with_validator (mk ''password_confirm'' (constr 250)) passwords_match"
  from user_fields_errors[OF mk, of K inp] obtain vals fset es vals1 where
    r: "validate_model K fs inp = Inr (vals, fset, es)"
    and p: "errs_at ''password'' es = field_errs K (mk ''password'' (constr 250)) inp []"
    and c: "errs_at ''password_confirm'' es = field_errs K ?cf inp vals1"
    and v: "map_of vals1 ''password'' = field_value K (mk ''password'' (constr 250)) inp []"
    unfolding fs by blast
  have own: "validate_field K (mk ''password'' (constr 250)) p [] =
               Errs [([LName ''password''], AnyStrMaxLengthError 250)]"
    using assms(4,5) unfolding own_check[OF mk assms(3)]
    by (simp add: lift_err_def constr_validate_def)
  have pe: "errs_at ''password'' es = [([LName ''password''], AnyStrMaxLengthError 250)]"
    using own assms(2) mk unfolding p by (simp add: field_errs_def mk_sel del: validate_field.simps)
  have nv: "map_of vals1 ''password'' = None"
    using own assms(2) mk unfolding v by (simp add: field_value_def mk_sel del: validate_field.simps)
  have cf: "\<And>x. validate_field K ?cf x vals1 = validate_field K (mk ''password_confirm'' (constr 250)) x []"
    unfolding confirm_field[OF mk] using nv
    by (simp del: validate_field.simps split: res.splits)
  have nm: "mismatch \<notin> set (field_errs K ?cf inp vals1)"
  proof (cases "map_of inp ''password_confirm''")
    case None
    then show ?thesis using mk by (auto simp: field_errs_def mk_sel mismatch_def)
  next
    case (Some x)
    show ?thesis
    proof (cases "validate_field K (mk ''password_confirm'' (constr 250)) x []")
      case (Errs es')
      from own_errors_not_mismatch[OF mk this] Some Errs mk show ?thesis
        by (simp add: field_errs_def mk_sel cf del: validate_field.simps)
    qed (use Some mk in \<open>simp_all add: field_errs_def mk_sel cf del: validate_field.simps\<close>)
  qed
  have ok: "\<And>x x'. map_of inp ''password_confirm'' = Some x \<Longrightarrow> x \<noteq> VNone \<Longrightarrow>
      constr_validate K (Some 250) None x = Inr x' \<Longrightarrow> field_errs K ?cf inp vals1 = []"
    using mk by (simp add: field_errs_def mk_sel cf own_check lift_err_def del: validate_field.simps)
  have nm': "mismatch \<notin> set es"
    using nm by (simp add: mismatch_at[of es] c)
  have ok': "\<forall>x x'. map_of inp ''password_confirm'' = Some x \<and> x \<noteq> VNone \<and>
      constr_validate K (Some 250) None x = Inr x' \<longrightarrow> errs_at ''password_confirm'' es = []"
    using ok unfolding c by blast
  from r pe nm' ok' show ?thesis by blast
qed


theorem long_password_skips_comparison_witness:
  "map_of [(''password'', VStr (replicate 251 (CHR ''a''))), (''password_confirm'', VStr ''b'')]
      ''password'' = Some (VStr (replicate 251 (CHR ''a''))) \<and>
   length (replicate 251 (CHR ''a'')) > 250 \<and>
   (\<exists>vals fset es. validate_model no_coercion UserUpdate_fields
        [(''password'', VStr (replicate 251 (CHR ''a''))), (''password_confirm'', VStr ''b'')]
        = Inr (vals, fset, es) \<and>
      mismatch \<notin> set es \<and>
      errs_at ''password'' es = [([LName ''password''], AnyStrMaxLengthError 250)] \<and>
      errs_at ''password_confirm'' es = [])"
proof -
  let ?p = "VStr (replicate 251 (CHR ''a''))"
  let ?inp = "[(''password'', ?p), (''password_confirm'', VStr ''b'')]"
  have 1: "map_of ?inp ''password'' = Some ?p" by simp
  have 2: "str_validator no_coercion ?p = Inr (replicate 251 (CHR ''a''))"
    by (simp add: str_validator_def)
  have 3: "length (replicate 251 (CHR ''a'')) > 250" by simp
  have 4: "map_of ?inp ''password_confirm'' = Some (VStr ''b'') \<and> VStr ''b'' \<noteq> VNone \<and>
           constr_validate no_coercion (Some 250) None (VStr ''b'') = Inr (VStr ''b'')"
    by (simp add: constr_validate_def str_validator_def)
  from long_password_skips_comparison[of UserUpdate_fields ?inp ?p no_coercion, OF _ 1 _ 2 3]
  obtain vals fset es where "validate_model no_coercion UserUpdate_fields ?inp = Inr (vals, fset, es)"
    "mismatch \<notin> set es"
    "errs_at ''password'' es = [([LName ''password''], AnyStrMaxLengthError 250)]"
    "\<forall>c c'. map_of ?inp ''password_confirm'' = Some c \<and> c \<noteq> VNone \<and>
        constr_validate no_coercion (Some 250) None c = Inr c' \<longrightarrow> errs_at ''password_confirm'' es = []"
    by auto
  with 4 1 3 show ?thesis by blast
qed

text \<open>
  Claim C1, as amended. In \<^verbatim>\<open>UserCreate\<close> and \<^verbatim>\<open>UserUpdate\<close>: when \<^verbatim>\<open>password\<close> and
  \<^verbatim>\<open>password_confirm\<close> are both supplied, non-null, each within its own length limit, and
  their values differ, validation reports the mismatch error on \<^verbatim>\<open>password_confirm\<close>. When
  \<^verbatim>\<open>password_confirm\<close> is omitted, no mismatch error is reported; when \<^verbatim>\<open>password\<close> is
  omitted from a \<^verbatim>\<open>UserCreate\<close> payload, no mismatch error is reported either.
\<close>

theorem passwords_match_rule:
  assumes "fs = UserCreate_fields \<or> fs = UserUpdate_fields"
  shows "\<exists>vals fset es. validate_model K fs inp = Inr (vals, fset, es) \<and>
           (\<forall>p c p' c'. map_of inp ''password'' = Some p \<and> p \<noteq> VNone \<and>
                constr_validate K (Some 250) None p = Inr p' \<and>
                map_of inp ''password_confirm'' = Some c \<and> c \<noteq> VNone \<and>
                constr_validate K (Some 250) None c = Inr c' \<and> p' \<noteq> c'
                \<longrightarrow> mismatch \<in> set es) \<and>
           (map_of inp ''password_confirm'' = None \<longrightarrow> mismatch \<notin> set es) \<and>
           (fs = UserCreate_fields \<and> map_of inp ''password'' = None \<longrightarrow> mismatch \<notin> set es)"
proof -
  from assms(1) obtain mk where mk: "mk = req \<or> mk = opt" and fs: "fs = user_fields mk"
    and cr: "fs = UserCreate_fields \<longrightarrow> mk = req"
    by (rule user_schema_cases) auto
  let ?pw = "mk ''password'' (constr 250)"
  let ?cf = "with_validator (mk ''password_confirm'' (constr 250)) passwords_match"
  from user_fields_errors[OF mk, of K inp] obtain vals fset es vals1 where
    r: "validate_model K fs inp = Inr (vals, fset, es)"
    and c: "errs_at ''password_confirm'' es = field_errs K ?cf inp vals1"
    and v: "map_of vals1 ''password'' = field_value K ?pw inp []"
    unfolding fs by blast
  have a: "mismatch \<in> set es"
    if "map_of inp ''password'' = Some p" "p \<noteq> VNone" "constr_validate K (Some 250) None p = Inr p'"
       "map_of inp ''password_confirm'' = Some x" "x \<noteq> VNone"
       "constr_validate K (Some 250) None x = Inr x'" "p' \<noteq> x'" for p x p' x'
  proof -
    have "map_of vals1 ''password'' = Some p'"
      unfolding v using that(1,2,3) mk
      by (simp add: field_value_def mk_sel own_check lift_err_def del: validate_field.simps)
    then have "field_errs K ?cf inp vals1 = [mismatch]"
      using that(4,5,6,7) mk
      by (simp add: field_errs_def mk_sel confirm_field own_check lift_err_def
          del: validate_field.simps)
    then show ?thesis by (simp add: mismatch_at[of es] c)
  qed
  have b: "mismatch \<notin> set es" if "map_of inp ''password_confirm'' = None"
  proof -
    have "mismatch \<notin> set (field_errs K ?cf inp vals1)"
      using that mk by (auto simp: field_errs_def mk_sel mismatch_def)
    then show ?thesis by (simp add: mismatch_at[of es] c)
  qed
  have d: "mismatch \<notin> set es" if "fs = UserCreate_fields" "map_of inp ''password'' = None"
  proof -
    from cr that(1) have req: "mk = req" by simp
    have nv: "map_of vals1 ''password'' = None"
      unfolding v using that(2) req by (simp add: field_value_def)
    have cf: "\<And>x. validate_field K ?cf x vals1 = validate_field K (mk ''password_confirm'' (constr 250)) x []"
      unfolding confirm_field[OF mk] using nv
      by (simp del: validate_field.simps split: res.splits)
    have "mismatch \<notin> set (field_errs K ?cf inp vals1)"
    proof (cases "map_of inp ''password_confirm''")
      case None
      then show ?thesis using mk by (auto simp: field_errs_def mk_sel mismatch_def)
    next
      case (Some x)
      show ?thesis
      proof (cases "validate_field K (mk ''password_confirm'' (constr 250)) x []")
        case (Errs es')
        from own_errors_not_mismatch[OF mk this] Some Errs mk show ?thesis
          by (simp add: field_errs_def mk_sel cf del: validate_field.simps)
      qed (use Some mk in \<open>simp_all add: field_errs_def mk_sel cf del: validate_field.simps\<close>)
    qed
    then show ?thesis by (simp add: mismatch_at[of es] c)
  qed
  show ?thesis
  proof (intro exI conjI allI impI)
    show "validate_model K fs inp = Inr (vals, fset, es)" by (rule r)
  next
    fix p x p' x'
    assume "map_of inp ''password'' = Some p \<and> p \<noteq> VNone \<and>
         constr_validate K (Some 250) None p = Inr p' \<and>
         map_of inp ''password_confirm'' = Some x \<and> x \<noteq> VNone \<and>
         constr_validate K (Some 250) None x = Inr x' \<and> p' \<noteq> x'"
    then show "mismatch \<in> set es" using a[of p p' x x'] by simp
  next
    assume "map_of inp ''password_confirm'' = None"
    then show "mismatch \<notin> set es" by (rule b)
  next
    assume "fs = UserCreate_fields \<and> map_of inp ''password'' = None"
    then show "mismatch \<notin> set es" using d by simp
  qed
qed


theorem passwords_match_rule_witness:
  "\<exists>vals fset es. validate_model no_coercion UserCreate_fields
       [(''password'', VStr ''a''), (''password_confirm'', VStr ''b'')] = Inr (vals, fset, es) \<and>
     mismatch \<in> set es"
proof -
  let ?inp = "[(''password'', VStr ''a''), (''password_confirm'', VStr ''b'')]"
  have h: "map_of ?inp ''password'' = Some (VStr ''a'') \<and> VStr ''a'' \<noteq> VNone \<and>
      constr_validate no_coercion (Some 250) None (VStr ''a'') = Inr (VStr ''a'') \<and>
      map_of ?inp ''password_confirm'' = Some (VStr ''b'') \<and> VStr ''b'' \<noteq> VNone \<and>
      constr_validate no_coercion (Some 250) None (VStr ''b'') = Inr (VStr ''b'') \<and>
      VStr ''a'' \<noteq> VStr ''b''"
    by (simp add: constr_validate_def str_validator_def)
  from passwords_match_rule[of UserCreate_fields no_coercion ?inp]
  obtain vals fset es where r: "validate_model no_coercion UserCreate_fields ?inp = Inr (vals, fset, es)"
    and a: "\<forall>p c p' c'. map_of ?inp ''password'' = Some p \<and> p \<noteq> VNone \<and>
                constr_validate no_coercion (Some 250) None p = Inr p' \<and>
                map_of ?inp ''password_confirm'' = Some c \<and> c \<noteq> VNone \<and>
                constr_validate no_coercion (Some 250) None c = Inr c' \<and> p' \<noteq> c'
                \<longrightarrow> mismatch \<in> set es"
    by auto
  from a h have "mismatch \<in> set es" by blast
  with r show ?thesis by blast
qed

text \<open>The claim as stated fails twice. A \<^verbatim>\<open>UserUpdate\<close> payload that supplies only
  \<^verbatim>\<open>password_confirm\<close> fails on this rule: the omitted \<^verbatim>\<open>password\<close> is in \<^verbatim>\<open>values\<close> with
  its default \<^verbatim>\<open>None\<close>. And a payload whose two values differ gets no error on
  \<^verbatim>\<open>password_confirm\<close> when the password is too long.\<close>

theorem passwords_match_rule_counterexample:
  "construct no_coercion ''UserUpdate'' UserUpdate_fields [(''password_confirm'', VStr ''abc'')]
     = Inl (ValidationError ''UserUpdate''
              [([LName ''password_confirm''], ValueError ''passwords do not match'')]) \<and>
   construct no_coercion ''UserUpdate'' UserUpdate_fields
       [(''password'', VStr (replicate 251 (CHR ''a''))), (''password_confirm'', VStr ''b'')]
     = Inl (ValidationError ''UserUpdate'' [([LName ''password''], AnyStrMaxLengthError 250)])"
  by (simp add: construct_def validate_model_def UserUpdate_fields_def opt_def with_validator_def
      validate_none_def passwords_match_def lift_err_def constr_validate_def str_validator_def
      mail_t_def)

section \<open>Method efficiencies\<close>

text \<open>
  Claim C5. For every \<^verbatim>\<open>MethodOreEfficiency\<close> payload, the value of \<^verbatim>\<open>efficiency\<close> is accepted
  exactly when it is greater than 0 and at most 1 (so 0 fails, 1 succeeds, 1.5 fails), and
  the value of \<^verbatim>\<open>duration\<close> is accepted exactly when it is greater than 0.
\<close>

theorem efficiency_duration_bounds:
  "\<exists>vals fset es. validate_model K MethodOreEfficiency_fields inp = Inr (vals, fset, es) \<and>
     (\<forall>v x. map_of inp ''efficiency'' = Some v \<and> v \<noteq> VNone \<and> float_validator K v = Inr x \<longrightarrow>
         (errs_at ''efficiency'' es = [] \<longleftrightarrow> float_gt x 0 \<and> float_le x 1)) \<and>
     (\<forall>r. map_of inp ''efficiency'' = Some (VFloat (Fin r)) \<longrightarrow>
         (errs_at ''efficiency'' es = [] \<longleftrightarrow> 0 < r \<and> r \<le> 1)) \<and>
     (map_of inp ''efficiency'' = Some (VFloat (Fin 0)) \<longrightarrow> errs_at ''efficiency'' es \<noteq> []) \<and>
     (map_of inp ''efficiency'' = Some (VFloat (Fin 1)) \<longrightarrow> errs_at ''efficiency'' es = []) \<and>
     (map_of inp ''efficiency'' = Some (VFloat (Fin (3 / 2))) \<longrightarrow> errs_at ''efficiency'' es \<noteq> []) \<and>
     (\<forall>v x. map_of inp ''duration'' = Some v \<and> v \<noteq> VNone \<and> float_validator K v = Inr x \<longrightarrow>
         (errs_at ''duration'' es = [] \<longleftrightarrow> float_gt x 0)) \<and>
     (\<forall>r. map_of inp ''duration'' = Some (VFloat (Fin r)) \<longrightarrow>
         (errs_at ''duration'' es = [] \<longleftrightarrow> 0 < r))"
proof -
  let ?e = "req ''efficiency'' (TFloat (Some 0) (Some 1))"
  let ?d = "req ''duration'' (TFloat (Some 0) None)"
  let ?rest = "[req ''ore_id'' TInt, opt ''ore_name'' str_t]"
  have pl: "\<And>f. f \<in> set MethodOreEfficiency_fields \<Longrightarrow> plain (ftp f)"
    by (auto simp: MethodOreEfficiency_fields_def simp del: validate_field.simps)
  obtain st' where st: "validate_fields K MethodOreEfficiency_fields inp ([], [], []) = Inr st'"
    using plain_fields_total[OF pl, of MethodOreEfficiency_fields K inp "([], [], [])"] by auto
  have d1: "MethodOreEfficiency_fields = [] @ ?e # (?d # ?rest)"
    and d2: "MethodOreEfficiency_fields = [?e] @ ?d # ?rest"
    by (simp_all add: MethodOreEfficiency_fields_def)
  from field_errors_at[OF st[unfolded d1]]
  have e: "errs_at ''efficiency'' (snd (snd st')) = field_errs K ?e inp []" by simp
  from field_errors_at[OF st[unfolded d2]]
  obtain s1 where "errs_at (fname ?d) (snd (snd st')) = field_errs K ?d inp (fst s1)" by auto
  then have d: "errs_at ''duration'' (snd (snd st')) = field_errs K ?d inp []"
    using field_errs_no_validators[of ?d K inp "fst s1"] by simp
  have fl: "\<And>x. float_validator K (VFloat x) = Inr x" by (simp add: float_validator_def)
  show ?thesis
  proof (intro exI conjI allI impI)
    show "validate_model K MethodOreEfficiency_fields inp = Inr (fst st', fst (snd st'), snd (snd st'))"
      using st by (simp add: validate_model_def)
  next
    fix v x
    assume "map_of inp ''efficiency'' = Some v \<and> v \<noteq> VNone \<and> float_validator K v = Inr x"
    then show "errs_at ''efficiency'' (snd (snd st')) = [] \<longleftrightarrow> float_gt x 0 \<and> float_le x 1"
      unfolding e using confloat_field_errs[of inp "''efficiency''" v K x "Some 0" "Some 1" "[]"]
      by simp
  next
    fix r assume "map_of inp ''efficiency'' = Some (VFloat (Fin r))"
    then show "errs_at ''efficiency'' (snd (snd st')) = [] \<longleftrightarrow> 0 < r \<and> r \<le> 1"
      unfolding e using confloat_field_errs[OF _ _ fl, of inp "''efficiency''" "Fin r" "Some 0" "Some 1" "[]"]
      by simp
  next
    assume "map_of inp ''efficiency'' = Some (VFloat (Fin 0))"
    then show "errs_at ''efficiency'' (snd (snd st')) \<noteq> []"
      unfolding e using confloat_field_errs[OF _ _ fl, of inp "''efficiency''" "Fin 0" "Some 0" "Some 1" "[]"]
      by simp
  next
    assume "map_of inp ''efficiency'' = Some (VFloat (Fin 1))"
    then show "errs_at ''efficiency'' (snd (snd st')) = []"
      unfolding e using confloat_field_errs[OF _ _ fl, of inp "''efficiency''" "Fin 1" "Some 0" "Some 1" "[]"]
      by simp
  next
    assume "map_of inp ''efficiency'' = Some (VFloat (Fin (3 / 2)))"
    then show "errs_at ''efficiency'' (snd (snd st')) \<noteq> []"
      unfolding e using confloat_field_errs[OF _ _ fl, of inp "''efficiency''" "Fin (3 / 2)" "Some 0" "Some 1" "[]"]
      by simp
  next
    fix v x
    assume "map_of inp ''duration'' = Some v \<and> v \<noteq> VNone \<and> float_validator K v = Inr x"
    then show "errs_at ''duration'' (snd (snd st')) = [] \<longleftrightarrow> float_gt x 0"
      unfolding d using confloat_field_errs[of inp "''duration''" v K x "Some 0" None "[]"]
      by simp
  next
    fix r assume "map_of inp ''duration'' = Some (VFloat (Fin r))"
    then show "errs_at ''duration'' (snd (snd st')) = [] \<longleftrightarrow> 0 < r"
      unfolding d using confloat_field_errs[OF _ _ fl, of inp "''duration''" "Fin r" "Some 0" None "[]"]
      by simp
  qed
qed


theorem efficiency_duration_bounds_witness:
  "\<exists>vals fset es. validate_model no_coercion MethodOreEfficiency_fields
       [(''efficiency'', VFloat (Fin 1)), (''duration'', VFloat (Fin 5)), (''ore_id'', VInt 3)]
       = Inr (vals, fset, es) \<and>
     errs_at ''efficiency'' es = [] \<and> errs_at ''duration'' es = []"
proof -
  let ?inp = "[(''efficiency'', VFloat (Fin 1)), (''duration'', VFloat (Fin 5)), (''ore_id'', VInt 3)]"
  from efficiency_duration_bounds[of no_coercion ?inp]
  obtain vals fset es where r: "validate_model no_coercion MethodOreEfficiency_fields ?inp = Inr (vals, fset, es)"
    and e: "map_of ?inp ''efficiency'' = Some (VFloat (Fin 1)) \<longrightarrow> errs_at ''efficiency'' es = []"
    and d: "\<forall>r. map_of ?inp ''duration'' = Some (VFloat (Fin r)) \<longrightarrow>
               (errs_at ''duration'' es = [] \<longleftrightarrow> 0 < r)"
    by blast
  from e have "errs_at ''efficiency'' es = []" by simp
  moreover from d[rule_format, of 5] have "errs_at ''duration'' es = []" by simp
  ultimately show ?thesis using r by blast
qed

section \<open>List envelope\<close>

text \<open>
  Claim C8. For every integer \<^verbatim>\<open>total_count\<close> and every list of items (of the item type, when
  the envelope is parametrised; any list at all for the unparametrised class), constructing
  \<^verbatim>\<open>ListResponse\<close> succeeds and keeps both values unchanged; no relation between
  \<^verbatim>\<open>total_count\<close> and the number of items is checked.
\<close>

theorem ListResponse_keeps_both:
  assumes "map_of inp ''total_count'' = Some (VInt n)" and "map_of inp ''items'' = Some (VList xs)"
  shows "(native_items ItemT xs \<longrightarrow>
            ListResponse K ItemT inp =
              Inr (VModel ''ListResponse'' [(''total_count'', VInt n), (''items'', VList xs)]
                     [''total_count'', ''items''])) \<and>
         ListResponse K TAny inp =
           Inr (VModel ''ListResponse'' [(''total_count'', VInt n), (''items'', VList xs)]
                  [''total_count'', ''items''])"
proof -
  have g: "ListResponse K T inp =
           Inr (VModel ''ListResponse'' [(''total_count'', VInt n), (''items'', VList xs)]
                  [''total_count'', ''items''])" if "native_items T xs" for T
  proof -
    have "validate_items K T xs 0 [LName ''items''] = Inr (xs, [])"
      using that by (intro native_items_validate) (simp_all add: native_validate)
    then show ?thesis
      using assms
      by (simp add: ListResponse_def ListResponse_fields_def construct_def validate_model_def
          lift_err_def int_validator_def)
  qed
  from g[of ItemT] g[OF native_items_any] show ?thesis by simp
qed

theorem ListResponse_keeps_both_witness:
  "ListResponse no_coercion TAny
     [(''total_count'', VInt 57), (''items'', VList (replicate 20 (VStr ''item'')))] =
   Inr (VModel ''ListResponse''
          [(''total_count'', VInt 57), (''items'', VList (replicate 20 (VStr ''item'')))]
          [''total_count'', ''items''])"
  using ListResponse_keeps_both[of "[(''total_count'', VInt 57),
      (''items'', VList (replicate 20 (VStr ''item'')))]" 57 "replicate 20 (VStr ''item'')"
      TAny no_coercion]
  by simp

section \<open>Update schemas\<close>

text \<open>
  Claim C2, as amended. In \<^verbatim>\<open>UserUpdate\<close>, \<^verbatim>\<open>OreUpdate\<close>, \<^verbatim>\<open>StationUpdate\<close>, \<^verbatim>\<open>MethodUpdate\<close> and
  \<^verbatim>\<open>MiningSessionUpdate\<close> every field is optional, and in \<^verbatim>\<open>FriendshipUpdate\<close> every field
  except the required \<^verbatim>\<open>user_id\<close> and \<^verbatim>\<open>friend_id\<close>: omitting such a field yields no error
  located at it, and a payload that validates still validates without it (for the
  \<^verbatim>\<open>password\<close> of \<^verbatim>\<open>UserUpdate\<close> only the first part is stated).
\<close>

theorem update_fields_optional:
  assumes "(cls, fs) \<in> set update_schemas" and "f \<in> set fs"
    and "\<not> (cls = ''FriendshipUpdate'' \<and> fname f \<in> {''user_id'', ''friend_id''})"
  shows "\<not> required f \<and>
    (\<forall>vals fset es. map_of inp (fname f) = None \<and> validate_model K fs inp = Inr (vals, fset, es)
        \<longrightarrow> errs_at (fname f) es = []) \<and>
    (\<forall>m. \<not> (cls = ''UserUpdate'' \<and> fname f = ''password'') \<and> construct K cls fs inp = Inr m
        \<longrightarrow> (\<exists>m'. construct K cls fs (omit (fname f) inp) = Inr m'))"
proof (intro conjI allI impI)
  show nr: "\<not> required f" using assms by (rule update_not_required)
  {
    fix vals fset es
    assume a: "map_of inp (fname f) = None \<and> validate_model K fs inp = Inr (vals, fset, es)"
    then have run: "validate_fields K fs inp ([], [], []) = Inr (vals, fset, es)"
      by (simp add: validate_model_def)
    from omitted_field_errors[OF run update_distinct[OF assms(1)] assms(2)]
    obtain vals1 where "errs_at (fname f) es = field_errs K f inp vals1" by auto
    with a nr show "errs_at (fname f) es = []" by (simp add: field_errs_def)
  }
  {
    fix m
    assume a: "\<not> (cls = ''UserUpdate'' \<and> fname f = ''password'') \<and> construct K cls fs inp = Inr m"
    then have c: "construct K cls fs inp = Inr m" by simp
    show "\<exists>m'. construct K cls fs (omit (fname f) inp) = Inr m'"
    proof (rule omit_valid[OF c])
      fix g assume "g \<in> set fs" "fname g = fname f"
      with assms(1,3) show "\<not> required g" by (intro update_not_required[of cls fs g]) simp_all
    next
      fix g v and vals vals' :: pydict
      assume "g \<in> set fs" "fname g \<noteq> fname f"
        "\<forall>k. k \<noteq> fname f \<longrightarrow> map_of vals k = map_of vals' k"
      with assms(1) a show "validate_field K g v vals = validate_field K g v vals'"
        by (intro update_independent[of cls fs g "fname f"]) simp_all
    qed
  }
qed

theorem update_fields_optional_witness:
  "\<not> required (opt ''name'' (constr 50)) \<and>
   (\<exists>m'. construct no_coercion ''OreUpdate'' OreUpdate_fields
            (omit ''name'' [(''name'', VStr ''Quantanium'')]) = Inr m')"
proof -
  have 1: "(''OreUpdate'', OreUpdate_fields) \<in> set update_schemas"
    by (simp add: update_schemas_def)
  have 2: "opt ''name'' (constr 50) \<in> set OreUpdate_fields" by (simp add: OreUpdate_fields_def)
  have 3: "construct no_coercion ''OreUpdate'' OreUpdate_fields [(''name'', VStr ''Quantanium'')]
             = Inr (VModel ''OreUpdate'' [(''name'', VStr ''Quantanium'')] [''name''])"
    by (simp add: construct_def validate_model_def OreUpdate_fields_def lift_err_def
        constr_validate_def str_validator_def)
  from update_fields_optional[OF 1 2, of "[(''name'', VStr ''Quantanium'')]" no_coercion] 3
  show ?thesis by simp
qed

text \<open>The claim as stated fails for \<^verbatim>\<open>FriendshipUpdate\<close>, whose \<^verbatim>\<open>user_id\<close> and
  \<^verbatim>\<open>friend_id\<close> are declared without \<^verbatim>\<open>Optional\<close>: a valid payload stops validating when
  \<^verbatim>\<open>user_id\<close> is omitted.\<close>

theorem update_fields_optional_counterexample:
  "construct no_coercion ''FriendshipUpdate'' FriendshipUpdate_fields
     [(''user_id'', VInt 1), (''friend_id'', VInt 2)]
   = Inr (VModel ''FriendshipUpdate''
            [(''user_id'', VInt 1), (''user_name'', VNone), (''friend_id'', VInt 2),
             (''friend_name'', VNone), (''confirmed'', VNone), (''name'', VNone)]
            [''user_id'', ''friend_id'']) \<and>
   construct no_coercion ''FriendshipUpdate'' FriendshipUpdate_fields [(''friend_id'', VInt 2)]
   = Inl (ValidationError ''FriendshipUpdate'' [([LName ''user_id''], MissingError)])"
  by (simp add: construct_def validate_model_def FriendshipUpdate_fields_def lift_err_def
      int_validator_def)

text \<open>
  Claim C3, as amended. For every Update-schema payload, a field omitted from the payload is
  not in the \<^verbatim>\<open>__fields_set__\<close> of the parsed structure, where its attribute holds the default
  \<^verbatim>\<open>None\<close>, while a field explicitly set to null is in \<^verbatim>\<open>__fields_set__\<close>: the two are
  distinguishable there, not by the stored value. In every valid payload each supplied value
  that is null or already of its field's own type is stored unchanged in the parsed
  structure; a value of another type is stored as converted.
\<close>

theorem update_absent_null_roundtrip:
  assumes "(cls, fs) \<in> set update_schemas" and "f \<in> set fs"
    and "validate_model K fs inp = Inr (vals, fset, es)"
  shows "(map_of inp (fname f) = None \<longrightarrow>
            fname f \<notin> set fset \<and> (\<not> required f \<longrightarrow> map_of vals (fname f) = Some VNone)) \<and>
         (map_of inp (fname f) = Some VNone \<longrightarrow> fname f \<in> set fset) \<and>
         (\<forall>v. es = [] \<and> map_of inp (fname f) = Some v \<and> (v = VNone \<or> native (ftp f) v)
              \<longrightarrow> map_of vals (fname f) = Some v)"
proof -
  from assms(3) have run: "validate_fields K fs inp ([], [], []) = Inr (vals, fset, es)"
    by (simp add: validate_model_def)
  from validate_fields_fields_set[OF run]
  have fset: "fset = filter (\<lambda>n. map_of inp n \<noteq> None) (map fname fs)" by simp
  from field_outcome[OF run update_distinct[OF assms(1)] assms(2)]
  obtain vals1 where e: "errs_at (fname f) es = field_errs K f inp vals1"
    and v: "map_of vals (fname f) = field_value K f inp vals1" by blast
  have a: "fname f \<notin> set fset \<and> (\<not> required f \<longrightarrow> map_of vals (fname f) = Some VNone)"
    if "map_of inp (fname f) = None"
    using that fset v by (simp add: field_value_def)
  have b: "fname f \<in> set fset" if "map_of inp (fname f) = Some VNone"
    using that fset assms(2) by simp
  have c: "map_of vals (fname f) = Some x"
    if h: "es = [] \<and> map_of inp (fname f) = Some x \<and> (x = VNone \<or> native (ftp f) x)" for x
  proof -
    from h e have ne: "field_errs K f inp vals1 = []" by simp
    have "\<exists>r. validate_field K f x vals1 = r \<and>
            (r = Errs [([LName (fname f)], NoneIsNotAllowedError)] \<or>
             r = apply_validators (post_validators f) x vals1 [LName (fname f)])"
    proof (cases "x = VNone")
      case True
      then show ?thesis by (simp add: validate_none_def)
    next
      case False
      with h have "native (ftp f) x" by simp
      from native_validate[OF this False] False show ?thesis by simp
    qed
    then consider "validate_field K f x vals1 = Errs [([LName (fname f)], NoneIsNotAllowedError)]"
      | "validate_field K f x vals1 = apply_validators (post_validators f) x vals1 [LName (fname f)]"
      by blast
    then show ?thesis
    proof cases
      case 1
      with h ne show ?thesis by (simp add: field_errs_def del: validate_field.simps)
    next
      case 2
      show ?thesis
      proof (cases "apply_validators (post_validators f) x vals1 [LName (fname f)]")
        case (Ok w)
        from update_validators_keep[OF assms(1,2) Ok] have "w = x" .
        with Ok 2 h show ?thesis unfolding v by (simp add: field_value_def del: validate_field.simps)
      next
        case (Errs es')
        from apply_validators_errs_nonempty[OF Errs] Errs 2 h ne show ?thesis
          by (simp add: field_errs_def del: validate_field.simps)
      next
        case (Raise ex)
        then show ?thesis by (simp add: apply_validators_no_raise)
      qed
    qed
  qed
  show ?thesis
  proof (intro conjI allI impI)
    assume "map_of inp (fname f) = None"
    then show "fname f \<notin> set fset" using a by simp
  next
    assume "map_of inp (fname f) = None" "\<not> required f"
    then show "map_of vals (fname f) = Some VNone" using a by simp
  next
    assume "map_of inp (fname f) = Some VNone"
    then show "fname f \<in> set fset" by (rule b)
  next
    fix x assume "es = [] \<and> map_of inp (fname f) = Some x \<and> (x = VNone \<or> native (ftp f) x)"
    then show "map_of vals (fname f) = Some x" by (rule c)
  qed
qed


theorem update_absent_null_roundtrip_witness:
  "validate_model no_coercion MiningSessionUpdate_fields
      [(''name'', VStr ''Aaron Halo''), (''archived'', VNone)] =
     Inr ([(''name'', VStr ''Aaron Halo''), (''archived'', VNone), (''yield_scu'', VNone),
           (''yield_uec'', VNone), (''users_invited'', VNone)],
          [''name'', ''archived''], []) \<and>
   ''yield_scu'' \<notin> set [''name'', ''archived''] \<and> ''archived'' \<in> set [''name'', ''archived''] \<and>
   map_of [(''name'', VStr ''Aaron Halo''), (''archived'', VNone), (''yield_scu'', VNone),
           (''yield_uec'', VNone), (''users_invited'', VNone)] ''name'' = Some (VStr ''Aaron Halo'')"
proof -
  let ?inp = "[(''name'', VStr ''Aaron Halo''), (''archived'', VNone)]"
  let ?vals = "[(''name'', VStr ''Aaron Halo''), (''archived'', VNone), (''yield_scu'', VNone),
           (''yield_uec'', VNone), (''users_invited'', VNone)]"
  have 1: "(''MiningSessionUpdate'', MiningSessionUpdate_fields) \<in> set update_schemas"
    by (simp add: update_schemas_def)
  have 2: "opt ''name'' (constr 50) \<in> set MiningSessionUpdate_fields"
    by (simp add: MiningSessionUpdate_fields_def)
  have 3: "validate_model no_coercion MiningSessionUpdate_fields ?inp =
             Inr (?vals, [''name'', ''archived''], [])"
    by (simp add: validate_model_def MiningSessionUpdate_fields_def lift_err_def
        constr_validate_def str_validator_def validate_none_def)
  have 4: "map_of ?inp (fname (opt ''name'' (constr 50))) = Some (VStr ''Aaron Halo'') \<and>
           native (ftp (opt ''name'' (constr 50))) (VStr ''Aaron Halo'')"
    by simp
  from update_absent_null_roundtrip[OF 1 2 3] 4
  have "map_of ?vals ''name'' = Some (VStr ''Aaron Halo'')" by simp
  with 3 show ?thesis by simp
qed

text \<open>The claim as stated fails: the fields omitted from a payload are in the parsed values,
  with \<^verbatim>\<open>None\<close>, and a supplied value is not always reproduced unchanged: a dict given for
  an item of \<^verbatim>\<open>users_invited\<close> is stored as an instance of \<^verbatim>\<open>Related\<close>.\<close>

theorem update_absent_null_roundtrip_counterexample:
  "construct no_coercion ''MiningSessionUpdate'' MiningSessionUpdate_fields
     [(''users_invited'', VList [VDict [(''id'', VInt 1), (''name'', VStr ''bob'')]])]
   = Inr (VModel ''MiningSessionUpdate''
            [(''name'', VNone), (''archived'', VNone), (''yield_scu'', VNone),
             (''yield_uec'', VNone),
             (''users_invited'',
                VList [VModel ''Related'' [(''id'', VInt 1), (''name'', VStr ''bob'')]
                         [''id'', ''name'']])]
            [''users_invited'']) \<and>
   VList [VModel ''Related'' [(''id'', VInt 1), (''name'', VStr ''bob'')] [''id'', ''name'']]
     \<noteq> VList [VDict [(''id'', VInt 1), (''name'', VStr ''bob'')]]"
  by (simp add: construct_def validate_model_def MiningSessionUpdate_fields_def Related_def
      Related_fields_def model_source_def lift_err_def int_validator_def constr_validate_def
      str_validator_def)

end
